theory Spec2Isabelle
  imports Complex_Main "HOL-Library.Sublist" "HOL-Library.Multiset" "HOL-Library.Product_Lexorder"
begin

section \<open>Strings of the runtime\<close>

text \<open>
  A JavaScript string is a sequence of UTF-16 code units and \<open>.length\<close> counts code
  units. The quote glyphs, dashes and the ellipsis that \<open>normalizeText\<close> rewrites lie
  beyond one byte, so a string is a list of code units given as natural numbers.
  \<open>js\<close> reads an ASCII literal.
\<close>

type_synonym jsstring = "nat list"

definition js :: "string \<Rightarrow> jsstring" where
  "js s = map of_char s"

text \<open>
  The characters matched by \<open>\s\<close> in a regular expression, which are also the
  characters removed by \<open>trim\<close>: WhiteSpace and LineTerminator of the language
  definition.
\<close>

definition isWhiteSpace :: "nat \<Rightarrow> bool" where
  "isWhiteSpace c \<longleftrightarrow>
     c = 9 \<or> c = 10 \<or> c = 11 \<or> c = 12 \<or> c = 13 \<or> c = 32 \<or> c = 160 \<or> c = 5760 \<or>
     (8192 \<le> c \<and> c \<le> 8202) \<or> c = 8232 \<or> c = 8233 \<or> c = 8239 \<or> c = 8287 \<or>
     c = 12288 \<or> c = 65279"

text \<open>
  \<open>toLowerCase\<close> belongs to the runtime, not to the repository. It is embedded on
  the Basic Latin letters; every other code unit is left as it is, whereas the runtime
  lower-cases every cased character. The proofs about the matcher, the placement and
  the annotation list below never unfold this embedding, only the evaluations at
  concrete ASCII inputs do; the statement about the normalizer itself is made for the
  lower-casing of the runtime as a parameter (\<open>normalizeTextWith\<close>).
\<close>

definition toLowerCodeUnit :: "nat \<Rightarrow> nat" where
  "toLowerCodeUnit c = (if 65 \<le> c \<and> c \<le> 90 then c + 32 else c)"

definition toLowerCase :: "jsstring \<Rightarrow> jsstring" where
  "toLowerCase s = map toLowerCodeUnit s"

text \<open>
  \<open>s.substring(a, b)\<close>: both arguments are clamped to \<open>[0, s.length]\<close> and swapped
  when the first is the larger one. \<open>substringFrom\<close> is the call with one argument.
\<close>

definition substring :: "jsstring \<Rightarrow> int \<Rightarrow> int \<Rightarrow> jsstring" where
  "substring s a b =
     (let n = int (length s);
          finalStart = min (max a 0) n;
          finalEnd = min (max b 0) n;
          from = min finalStart finalEnd;
          to = max finalStart finalEnd
      in take (nat (to - from)) (drop (nat from) s))"

definition substringFrom :: "jsstring \<Rightarrow> int \<Rightarrow> jsstring" where
  "substringFrom s a = substring s a (int (length s))"

text \<open>\<open>s.indexOf(pat)\<close>: the first position at which \<open>pat\<close> occurs, or \<open>-1\<close>.\<close>

fun indexOfFrom :: "jsstring \<Rightarrow> jsstring \<Rightarrow> nat \<Rightarrow> int" where
  "indexOfFrom pat [] i = (if pat = [] then int i else - 1)"
| "indexOfFrom pat (c # cs) i =
     (if prefix pat (c # cs) then int i else indexOfFrom pat cs (Suc i))"

definition indexOf :: "jsstring \<Rightarrow> jsstring \<Rightarrow> int" where
  "indexOf s pat = indexOfFrom pat s 0"

section \<open>The text normalizer\<close>

text \<open>The replacements of \<open>normalizeText\<close>, one definition for each \<open>replace\<close> call.\<close>

definition replaceSingleQuotes :: "jsstring \<Rightarrow> jsstring" where
  "replaceSingleQuotes s = map (\<lambda>c. if c = 0x2018 \<or> c = 0x2019 then 39 else c) s"

definition replaceDoubleQuotes :: "jsstring \<Rightarrow> jsstring" where
  "replaceDoubleQuotes s = map (\<lambda>c. if c = 0x201C \<or> c = 0x201D then 34 else c) s"

definition replaceDashes :: "jsstring \<Rightarrow> jsstring" where
  "replaceDashes s = map (\<lambda>c. if c = 0x2013 \<or> c = 0x2014 then 45 else c) s"

definition replaceEllipsis :: "jsstring \<Rightarrow> jsstring" where
  "replaceEllipsis s = concat (map (\<lambda>c. if c = 0x2026 then [46, 46, 46] else [c]) s)"

text \<open>\<open>replace(/\s+/g, ' ')\<close>: every maximal run of white space becomes one space.\<close>

function collapseWhiteSpace :: "jsstring \<Rightarrow> jsstring" where
  "collapseWhiteSpace [] = []"
| "collapseWhiteSpace (c # cs) =
     (if isWhiteSpace c then 32 # collapseWhiteSpace (dropWhile isWhiteSpace cs)
      else c # collapseWhiteSpace cs)"
  by pat_completeness auto
termination
  by (relation "measure length") (auto simp: length_dropWhile_le less_Suc_eq_le)

definition trim :: "jsstring \<Rightarrow> jsstring" where
  "trim s = rev (dropWhile isWhiteSpace (rev (dropWhile isWhiteSpace s)))"

definition normalizeText :: "jsstring \<Rightarrow> jsstring" where
  "normalizeText text =
     (if text = [] then []
      else trim (collapseWhiteSpace (replaceEllipsis (replaceDashes
             (replaceDoubleQuotes (replaceSingleQuotes (toLowerCase text)))))))"

text \<open>
  The same function with the lower-casing of the runtime as a parameter, for
  statements that are to hold of the runtime's \<open>toLowerCase\<close> on every string and
  not only of its embedding above. \<open>afterLowerCase\<close> is the rest of the chain.
\<close>

definition afterLowerCase :: "jsstring \<Rightarrow> jsstring" where
  "afterLowerCase s =
     trim (collapseWhiteSpace (replaceEllipsis (replaceDashes
       (replaceDoubleQuotes (replaceSingleQuotes s)))))"


section \<open>Numbers, sorting, maps of the runtime\<close>

text \<open>
  The numbers that occur as sort keys and as results of comparators: integers, the two
  infinities, and \<open>NaN\<close> (the value of \<open>Infinity - Infinity\<close>).
\<close>

datatype jsnumber = Num int | PosInfinity | NegInfinity | NaN

fun minus_js :: "jsnumber \<Rightarrow> jsnumber \<Rightarrow> jsnumber" where
  "minus_js (Num a) (Num b) = Num (a - b)"
| "minus_js NaN _ = NaN"
| "minus_js _ NaN = NaN"
| "minus_js PosInfinity PosInfinity = NaN"
| "minus_js NegInfinity NegInfinity = NaN"
| "minus_js PosInfinity _ = PosInfinity"
| "minus_js NegInfinity _ = NegInfinity"
| "minus_js (Num a) PosInfinity = NegInfinity"
| "minus_js (Num a) NegInfinity = PosInfinity"

fun isPositive :: "jsnumber \<Rightarrow> bool" where
  "isPositive (Num v) = (0 < v)"
| "isPositive PosInfinity = True"
| "isPositive NegInfinity = False"
| "isPositive NaN = False"

text \<open>
  \<open>Array.prototype.sort\<close> with a comparator. The language definition requires the sort
  to be stable, and for a consistent comparator the result is then determined: it is the
  result of a stable insertion sort. An element moves behind another one only when the
  comparator is positive on the pair; a zero or \<open>NaN\<close> result leaves the two in their
  order.
\<close>

fun insertBy :: "('a \<Rightarrow> 'a \<Rightarrow> jsnumber) \<Rightarrow> 'a \<Rightarrow> 'a list \<Rightarrow> 'a list" where
  "insertBy cmp x [] = [x]"
| "insertBy cmp x (y # ys) =
     (if isPositive (cmp x y) then y # insertBy cmp x ys else x # y # ys)"

definition sortBy :: "('a \<Rightarrow> 'a \<Rightarrow> jsnumber) \<Rightarrow> 'a list \<Rightarrow> 'a list" where
  "sortBy cmp xs = foldr (insertBy cmp) xs []"

text \<open>
  A \<open>Map\<close> keeps its entries in insertion order; \<open>set\<close> on a key that is present
  replaces the value and keeps the position of the entry.
\<close>

fun mapSet :: "'k \<Rightarrow> 'v \<Rightarrow> ('k \<times> 'v) list \<Rightarrow> ('k \<times> 'v) list" where
  "mapSet k v [] = [(k, v)]"
| "mapSet k v ((k', v') # m) = (if k' = k then (k, v) # m else (k', v') # mapSet k v m)"

definition mapGet :: "('k \<times> 'v) list \<Rightarrow> 'k \<Rightarrow> 'v option" where
  "mapGet m k = map_of m k"

definition mapHas :: "('k \<times> 'v) list \<Rightarrow> 'k \<Rightarrow> bool" where
  "mapHas m k = (map_of m k \<noteq> None)"

definition mapValues :: "('k \<times> 'v) list \<Rightarrow> 'v list" where
  "mapValues m = map snd m"

text \<open>The decimal digits of an array index, as a template literal prints it.\<close>

function toStringNat :: "nat \<Rightarrow> jsstring" where
  "toStringNat n = (if n < 10 then [48 + n] else toStringNat (n div 10) @ [48 + n mod 10])"
  by pat_completeness auto
termination
  by (relation "measure id") auto

declare toStringNat.simps [simp del]

text \<open>\<open>split(/\s+/)\<close>: the pieces between the maximal runs of white space; a run at
  the start or at the end of the string leaves an empty piece there.\<close>

function splitWhiteSpace :: "jsstring \<Rightarrow> jsstring \<Rightarrow> jsstring list" where
  "splitWhiteSpace cur [] = [cur]"
| "splitWhiteSpace cur (c # cs) =
     (if isWhiteSpace c then cur # splitWhiteSpace [] (dropWhile isWhiteSpace cs)
      else splitWhiteSpace (cur @ [c]) cs)"
  by pat_completeness auto
termination
  by (relation "measure (\<lambda>(cur, s). length s)") (auto simp: length_dropWhile_le less_Suc_eq_le)

definition split :: "jsstring \<Rightarrow> jsstring list" where
  "split s = splitWhiteSpace [] s"

fun join :: "jsstring list \<Rightarrow> jsstring \<Rightarrow> jsstring" where
  "join [] sep = []"
| "join [w] sep = w"
| "join (w # v # ws) sep = w @ sep @ join (v # ws) sep"

section \<open>Regular expressions of the word-sequence strategy\<close>

text \<open>
  The class \<open>[.*+?^${}()|[\]\\]\<close> of the two \<open>replace\<close> calls that escape a word:
  the fourteen syntax characters of the pattern language.
\<close>

definition isSyntaxCharacter :: "nat \<Rightarrow> bool" where
  "isSyntaxCharacter c \<longleftrightarrow>
     c = 46 \<or> c = 42 \<or> c = 43 \<or> c = 63 \<or> c = 94 \<or> c = 36 \<or> c = 123 \<or> c = 125 \<or>
     c = 40 \<or> c = 41 \<or> c = 124 \<or> c = 91 \<or> c = 93 \<or> c = 92"

definition escapeRegExp :: "jsstring \<Rightarrow> jsstring" where
  "escapeRegExp w = concat (map (\<lambda>c. if isSyntaxCharacter c then [92, c] else [c]) w)"

text \<open>
  \<open>new RegExp(pattern, "i")\<close> is embedded on the patterns the code can build: plain
  characters, a syntax character behind a backslash, the class \<open>\s\<close>, and the
  quantifier \<open>+\<close> behind any of these. Every other pattern is answered with a
  \<open>SyntaxError\<close>, so the embedding raises at least where the runtime does.
\<close>

datatype jsError = SyntaxError

datatype atom = Unit nat | WhiteSpaceClass

datatype regexItem = Once atom | OneOrMore atom

type_synonym regex = "regexItem list"

definition addItem :: "regexItem \<Rightarrow> jsError + regex \<Rightarrow> jsError + regex" where
  "addItem x r = (case r of Inl e \<Rightarrow> Inl e | Inr xs \<Rightarrow> Inr (x # xs))"

fun parsePattern :: "jsstring \<Rightarrow> jsError + regex" where
  "parsePattern [] = Inr []"
| "parsePattern [c] = (if isSyntaxCharacter c then Inl SyntaxError else Inr [Once (Unit c)])"
| "parsePattern (c # d # cs) =
     (if c = 92 then
        (if d = 115 \<or> isSyntaxCharacter d then
           (let a = (if d = 115 then WhiteSpaceClass else Unit d) in
            case cs of
              [] \<Rightarrow> Inr [Once a]
            | e # es \<Rightarrow>
                if e = 43 then addItem (OneOrMore a) (parsePattern es)
                else addItem (Once a) (parsePattern (e # es)))
         else Inl SyntaxError)
      else if isSyntaxCharacter c then Inl SyntaxError
      else if d = 43 then addItem (OneOrMore (Unit c)) (parsePattern cs)
      else addItem (Once (Unit c)) (parsePattern (d # cs)))"

text \<open>With the flag \<open>i\<close> two characters agree when their upper-case forms agree;
  as for \<open>toLowerCase\<close>, the case mapping is that of the Basic Latin letters.\<close>

definition canonicalize :: "nat \<Rightarrow> nat" where
  "canonicalize c = (if 97 \<le> c \<and> c \<le> 122 then c - 32 else c)"

fun atomMatches :: "atom \<Rightarrow> nat \<Rightarrow> bool" where
  "atomMatches (Unit u) c = (canonicalize u = canonicalize c)"
| "atomMatches WhiteSpaceClass c = isWhiteSpace c"

fun matchHere :: "regex \<Rightarrow> jsstring \<Rightarrow> bool" where
  "matchHere [] s = True"
| "matchHere (x # r) [] = False"
| "matchHere (Once a # r) (c # cs) = (if atomMatches a c then matchHere r cs else False)"
| "matchHere (OneOrMore a # r) (c # cs) =
     (if atomMatches a c
      then (if matchHere (OneOrMore a # r) cs then True else matchHere r cs)
      else False)"

fun searchFrom :: "regex \<Rightarrow> jsstring \<Rightarrow> nat \<Rightarrow> nat option" where
  "searchFrom re [] i = (if matchHere re [] then Some i else None)"
| "searchFrom re (c # cs) i =
     (if matchHere re (c # cs) then Some i else searchFrom re cs (Suc i))"

text \<open>
  \<open>new RegExp(pattern, "i")\<close> followed by \<open>subject.match(...)\<close>: a
  \<open>SyntaxError\<close>, or the \<open>index\<close> of the leftmost match, or no match.
\<close>

definition regExpMatch :: "jsstring \<Rightarrow> jsstring \<Rightarrow> jsError + nat option" where
  "regExpMatch pattern subject =
     (case parsePattern pattern of
        Inl e \<Rightarrow> Inl e
      | Inr re \<Rightarrow> Inr (searchFrom re subject 0))"

section \<open>The substring matcher\<close>

record MatchResult =
  startIndex :: int
  endIndex :: int
  matchedText :: jsstring
  similarity :: real

text \<open>
  \<open>findBestSubstringMatch\<close> tries three strategies in turn; each is a definition of
  its own here. The chunk strategy: three slices of the normalized needle are looked up
  in the normalized haystack, the earliest hit decides, and the region is cut from the
  haystack as it was passed in.
\<close>

definition chunkStrategy :: "jsstring \<Rightarrow> jsstring \<Rightarrow> MatchResult option" where
  "chunkStrategy needle haystack =
     (let needleNormalized = normalizeText needle;
          haystackNormalized = normalizeText haystack;
          len = int (length needleNormalized)
      in if len > 50 then
           (let chunk0 = substring needleNormalized 0 30;
                chunk1 = substring needleNormalized (len div 2 - 15) (len div 2 + 15);
                chunk2 = substringFrom needleNormalized (len - 30);
                locations = filter (\<lambda>(chunk, idx). idx \<ge> 0)
                   (map (\<lambda>chunk. (chunk, indexOf haystackNormalized chunk)) [chunk0, chunk1, chunk2])
            in if length locations > 0 then
                 (case sortBy (\<lambda>a b. Num (snd a - snd b)) locations of
                    [] \<Rightarrow> None
                  | firstChunk # _ \<Rightarrow>
                      (let estimatedStartIndex =
                             (if fst firstChunk = chunk0 then snd firstChunk
                              else if fst firstChunk = chunk1
                                then max 0 (snd firstChunk - len div 2 + 15)
                              else max 0 (snd firstChunk - len + 30));
                           estimatedEndIndex =
                             min (int (length haystack))
                                 (estimatedStartIndex + int (length needle) + 20)
                       in Some \<lparr>startIndex = estimatedStartIndex,
                                endIndex = estimatedEndIndex,
                                matchedText = substring haystack estimatedStartIndex estimatedEndIndex,
                                similarity = 0.9\<rparr>))
               else None)
         else None)"

text \<open>
  The word-sequence strategy. The loop runs over the start \<open>i\<close> of a window of three
  words; \<open>wordSeqPattern\<close> is the pattern \<open>wordSeq\<close> of the window: its words
  escaped and joined by \<open>\s+\<close>. The body of the \<open>try\<close> builds and applies the
  regular expression; the
  \<open>catch\<close> continues with the next window. The regular-expression engine is the
  parameter \<open>rx\<close> of the loop (the code runs it with the engine of the runtime,
  \<open>regExpMatch\<close>), so that the handler can be stated for an engine that raises.
\<close>

definition wordSeqPattern :: "jsstring list \<Rightarrow> nat \<Rightarrow> jsstring" where
  "wordSeqPattern words i =
     (let escapedWords = map escapeRegExp (take 3 (drop i words))
      in join escapedWords [92, 115, 43])"

function wordSeqLoop ::
  "(jsstring \<Rightarrow> jsstring \<Rightarrow> jsError + nat option) \<Rightarrow> jsstring \<Rightarrow> jsstring \<Rightarrow> jsstring \<Rightarrow>
   jsstring list \<Rightarrow> nat \<Rightarrow> MatchResult option" where
  "wordSeqLoop rx needle haystack haystackNormalized words i =
     (if int i \<le> int (length words) - 3 then
        (let wordSeq = wordSeqPattern words i
         in case rx wordSeq haystackNormalized of
              Inl error \<Rightarrow> wordSeqLoop rx needle haystack haystackNormalized words (Suc i)
            | Inr None \<Rightarrow> wordSeqLoop rx needle haystack haystackNormalized words (Suc i)
            | Inr (Some index) \<Rightarrow>
                (let startIdx = max 0 (int index - 20);
                     endIdx = min (int (length haystackNormalized))
                                  (int index + int (length needle) + 20)
                 in Some \<lparr>startIndex = startIdx, endIndex = endIdx,
                          matchedText = substring haystack startIdx endIdx,
                          similarity = 0.85\<rparr>))
      else None)"
  by pat_completeness auto
termination
  by (relation "measure (\<lambda>(rx, needle, haystack, hn, words, i). length words - i)") auto

declare wordSeqLoop.simps [simp del]

definition significant :: "jsstring \<Rightarrow> jsstring list" where
  "significant needle = filter (\<lambda>w. length w > 3) (split needle)"

definition wordSeqStrategy ::
  "(jsstring \<Rightarrow> jsstring \<Rightarrow> jsError + nat option) \<Rightarrow> jsstring \<Rightarrow> jsstring \<Rightarrow> MatchResult option" where
  "wordSeqStrategy rx needle haystack =
     (let haystackNormalized = normalizeText haystack;
          words = significant needle
      in if length words \<ge> 3 then wordSeqLoop rx needle haystack haystackNormalized words 0
         else None)"

text \<open>
  The single-word fallback. The word is lower-cased and escaped as for a regular
  expression, and the result is looked up with \<open>indexOf\<close>, which raises nothing.
\<close>

fun singleWordLoop ::
  "jsstring \<Rightarrow> jsstring \<Rightarrow> jsstring \<Rightarrow> jsstring list \<Rightarrow> MatchResult option" where
  "singleWordLoop needle haystack haystackNormalized [] = None"
| "singleWordLoop needle haystack haystackNormalized (word # rest) =
     (let escapedWord = escapeRegExp (toLowerCase word);
          idx = indexOf haystackNormalized escapedWord
      in if idx \<ge> 0 then
           (let startIdx = max 0 (idx - 10);
                endIdx = min (int (length haystackNormalized)) (idx + int (length needle) + 10)
            in Some \<lparr>startIndex = startIdx, endIndex = endIdx,
                     matchedText = substring haystack startIdx endIdx,
                     similarity = 0.7\<rparr>)
         else singleWordLoop needle haystack haystackNormalized rest)"

definition significantWords :: "jsstring \<Rightarrow> jsstring list" where
  "significantWords needle =
     sortBy (\<lambda>a b. Num (int (length b) - int (length a)))
       (filter (\<lambda>w. length w > 5) (significant needle))"

definition singleWordStrategy :: "jsstring \<Rightarrow> jsstring \<Rightarrow> MatchResult option" where
  "singleWordStrategy needle haystack =
     (let haystackNormalized = normalizeText haystack
      in if length (significantWords needle) > 0
         then singleWordLoop needle haystack haystackNormalized (significantWords needle)
         else None)"

definition findBestSubstringMatchWith ::
  "(jsstring \<Rightarrow> jsstring \<Rightarrow> jsError + nat option) \<Rightarrow> jsstring \<Rightarrow> jsstring \<Rightarrow> MatchResult option" where
  "findBestSubstringMatchWith rx needle haystack =
     (if length needle < 10 then None
      else case chunkStrategy needle haystack of
             Some m \<Rightarrow> Some m
           | None \<Rightarrow>
               (case wordSeqStrategy rx needle haystack of
                  Some m \<Rightarrow> Some m
                | None \<Rightarrow> singleWordStrategy needle haystack))"

definition findBestSubstringMatch :: "jsstring \<Rightarrow> jsstring \<Rightarrow> MatchResult option" where
  "findBestSubstringMatch needle haystack = findBestSubstringMatchWith regExpMatch needle haystack"

section \<open>Placing and ordering the annotations\<close>

record FeedbackPassage =
  referenced_student_text_quote :: jsstring
  feedback :: jsstring
  quote_from_marking_guidelines :: "jsstring option"

record PassageInfo =
  info_passage :: FeedbackPassage
  info_id :: jsstring

record MatchedInfo =
  matched_passage :: FeedbackPassage
  matched_id :: jsstring
  matched_startIndex :: int

record Annotation =
  anno_id :: jsstring
  anno_feedback :: jsstring
  anno_guideline :: "jsstring option"
  anno_quote :: jsstring
  anno_startIndex :: jsnumber

text \<open>\<open>passageMap\<close>: the \<open>forEach\<close> over the passages with their index.\<close>

fun buildPassageMap ::
  "FeedbackPassage list \<Rightarrow> nat \<Rightarrow> (jsstring \<times> PassageInfo) list \<Rightarrow> (jsstring \<times> PassageInfo) list" where
  "buildPassageMap [] index m = m"
| "buildPassageMap (passage # rest) index m =
     buildPassageMap rest (Suc index)
       (mapSet (referenced_student_text_quote passage)
          \<lparr>info_passage = passage, info_id = js ''annotation-'' @ toStringNat index\<rparr> m)"

text \<open>The markup put around a matched region; \<open>activeAnnotationId\<close> is the state of
  the page that selects the colour classes.\<close>

definition highlightOpen :: "jsstring option \<Rightarrow> jsstring \<Rightarrow> jsstring" where
  "highlightOpen activeAnnotationId ident =
     js ''<span id='' @ [34] @ js ''text-'' @ ident @ [34] @
     js '' data-annotation-id='' @ [34] @ ident @ [34] @
     js '' class='' @ [34] @
     js ''annotation-highlight cursor-pointer transition-colors duration-200 '' @
     (if activeAnnotationId = Some ident then js ''bg-yellow-200 dark:bg-yellow-700/50''
      else js ''bg-blue-100/50 dark:bg-blue-900/30 hover:bg-blue-200/70 dark:hover:bg-blue-800/50'') @
     js '' rounded px-1'' @ [34] @ js ''>''"

definition highlightClose :: jsstring where
  "highlightClose = js ''</span>''"

record PlacerState =
  processedHtml :: jsstring
  matchedPassages :: "(jsstring \<times> MatchedInfo) list"

text \<open>One round of the loop over \<open>sortedPassages\<close>.\<close>

definition placePassage ::
  "jsstring option \<Rightarrow> jsstring \<Rightarrow> (jsstring \<times> PassageInfo) list \<Rightarrow> FeedbackPassage \<Rightarrow>
   PlacerState \<Rightarrow> PlacerState" where
  "placePassage activeAnnotationId originalHtml passageMap passage st =
     (let quote = referenced_student_text_quote passage
      in case mapGet passageMap quote of
           None \<Rightarrow> st
         | Some info \<Rightarrow>
             (case findBestSubstringMatch quote (processedHtml st) of
                None \<Rightarrow> st
              | Some match \<Rightarrow>
                  if similarity match \<ge> 0.7 then
                    (let textToWrap = substring (processedHtml st) (startIndex match) (endIndex match);
                         startIdx = startIndex match;
                         endIdx = endIndex match;
                         before = substring (processedHtml st) 0 startIdx;
                         after = substringFrom (processedHtml st) endIdx;
                         highlightedText =
                           highlightOpen activeAnnotationId (info_id info) @ textToWrap @ highlightClose;
                         originalMatch = findBestSubstringMatch quote originalHtml;
                         stableStartIndex =
                           (case originalMatch of Some m \<Rightarrow> startIndex m | None \<Rightarrow> - 1)
                     in \<lparr>processedHtml = before @ highlightedText @ after,
                         matchedPassages =
                           mapSet quote
                             \<lparr>matched_passage = passage, matched_id = info_id info,
                              matched_startIndex = stableStartIndex\<rparr>
                             (matchedPassages st)\<rparr>)
                  else st))"

fun placeLoop ::
  "jsstring option \<Rightarrow> jsstring \<Rightarrow> (jsstring \<times> PassageInfo) list \<Rightarrow> FeedbackPassage list \<Rightarrow>
   PlacerState \<Rightarrow> PlacerState" where
  "placeLoop activeAnnotationId originalHtml passageMap [] st = st"
| "placeLoop activeAnnotationId originalHtml passageMap (passage # rest) st =
     placeLoop activeAnnotationId originalHtml passageMap rest
       (placePassage activeAnnotationId originalHtml passageMap passage st)"

definition sortedPassages :: "FeedbackPassage list \<Rightarrow> FeedbackPassage list" where
  "sortedPassages passages =
     sortBy (\<lambda>a b. Num (int (length (referenced_student_text_quote b)) -
                         int (length (referenced_student_text_quote a)))) passages"

definition placed :: "jsstring option \<Rightarrow> jsstring \<Rightarrow> FeedbackPassage list \<Rightarrow> PlacerState" where
  "placed activeAnnotationId markdownProposal passages =
     placeLoop activeAnnotationId markdownProposal (buildPassageMap passages 0 [])
       (sortedPassages passages)
       \<lparr>processedHtml = markdownProposal, matchedPassages = []\<rparr>"

definition matchedAnnotationsData :: "(jsstring \<times> MatchedInfo) list \<Rightarrow> Annotation list" where
  "matchedAnnotationsData matched =
     map (\<lambda>info. \<lparr>anno_id = matched_id info,
                  anno_feedback = feedback (matched_passage info),
                  anno_guideline = quote_from_marking_guidelines (matched_passage info),
                  anno_quote = referenced_student_text_quote (matched_passage info),
                  anno_startIndex = Num (matched_startIndex info)\<rparr>)
       (mapValues matched)"

fun unmatchedFrom :: "FeedbackPassage list \<Rightarrow> nat \<Rightarrow> Annotation list" where
  "unmatchedFrom [] index = []"
| "unmatchedFrom (p # rest) index =
     \<lparr>anno_id = js ''unmatched-'' @ toStringNat index,
      anno_feedback = feedback p,
      anno_guideline = quote_from_marking_guidelines p,
      anno_quote = referenced_student_text_quote p,
      anno_startIndex = PosInfinity\<rparr> # unmatchedFrom rest (Suc index)"

definition unmatchedAnnotationsData ::
  "FeedbackPassage list \<Rightarrow> (jsstring \<times> MatchedInfo) list \<Rightarrow> Annotation list" where
  "unmatchedAnnotationsData passages matched =
     unmatchedFrom
       (filter (\<lambda>p. \<not> mapHas matched (referenced_student_text_quote p)) passages) 0"

definition allAnnotations ::
  "FeedbackPassage list \<Rightarrow> (jsstring \<times> MatchedInfo) list \<Rightarrow> Annotation list" where
  "allAnnotations passages matched =
     sortBy (\<lambda>a b. minus_js (anno_startIndex a) (anno_startIndex b))
       (matchedAnnotationsData matched @ unmatchedAnnotationsData passages matched)"

text \<open>
  The memoized computation of the page. Its inputs are the document text, the passages
  of the feedback (\<open>None\<close> when there is no feedback yet) and the active annotation.
  \<open>markedHtml\<close> is the final \<open>processedHtml\<close>, which the page renders after
  replacing each line feed by a \<open>br\<close> element; \<open>annotationData\<close> is the list for
  the side bar.
\<close>

definition markedHtml ::
  "jsstring option \<Rightarrow> jsstring \<Rightarrow> FeedbackPassage list option \<Rightarrow> jsstring" where
  "markedHtml activeAnnotationId markdownProposal fb =
     (case fb of
        None \<Rightarrow> markdownProposal
      | Some passages \<Rightarrow>
          if markdownProposal = [] \<or> length passages = 0 then markdownProposal
          else processedHtml (placed activeAnnotationId markdownProposal passages))"

definition annotationData ::
  "jsstring option \<Rightarrow> jsstring \<Rightarrow> FeedbackPassage list option \<Rightarrow> Annotation list" where
  "annotationData activeAnnotationId markdownProposal fb =
     (case fb of
        None \<Rightarrow> []
      | Some passages \<Rightarrow>
          if markdownProposal = [] \<or> length passages = 0 then []
          else allAnnotations passages
                 (matchedPassages (placed activeAnnotationId markdownProposal passages)))"

section \<open>Example inputs\<close>

definition quoteShort :: jsstring where
  "quoteShort = js ''fox''"

definition documentFox :: jsstring where
  "documentFox = js ''The quick brown fox jumps over the lazy dog near the riverbank.''"

definition quoteEssays :: jsstring where
  "quoteEssays = js ''students write their essays''"

definition documentEssays :: jsstring where
  "documentEssays = js ''Many students write their essays without planning.''"

definition quoteRiverbank :: jsstring where
  "quoteRiverbank = js ''the quick brown fox jumps over the lazy dog near the riverbank''"

text \<open>Sixteen ellipsis characters, as a line of leaders, before the text.\<close>

definition documentLeaders :: jsstring where
  "documentLeaders =
     [8230, 8230, 8230, 8230, 8230, 8230, 8230, 8230,
      8230, 8230, 8230, 8230, 8230, 8230, 8230, 8230] @ js ''the quick brown fox jumps over''"

definition quoteWonderful :: jsstring where
  "quoteWonderful = js ''wonderful.''"

definition documentWonderful :: jsstring where
  "documentWonderful = js ''it is wonderful.''"


definition passageEssays :: FeedbackPassage where
  "passageEssays =
     \<lparr>referenced_student_text_quote = quoteEssays,
      feedback = js ''Say which students.'',
      quote_from_marking_guidelines = Some (js ''Precision'')\<rparr>"


definition passageFox :: FeedbackPassage where
  "passageFox =
     \<lparr>referenced_student_text_quote = quoteShort,
      feedback = js ''Too short.'',
      quote_from_marking_guidelines = None\<rparr>"

section \<open>Predicates used in the statements and proofs\<close>

text \<open>
  A string is settled when no step of the normalizer has anything left to do on its
  characters: no capital Basic Latin letter, none of the rewritten glyphs, and no white
  space other than the plain space.
\<close>

definition settledUnit :: "nat \<Rightarrow> bool" where
  "settledUnit c \<longleftrightarrow>
     toLowerCodeUnit c = c \<and> c \<noteq> 0x2018 \<and> c \<noteq> 0x2019 \<and> c \<noteq> 0x201C \<and> c \<noteq> 0x201D \<and>
     c \<noteq> 0x2013 \<and> c \<noteq> 0x2014 \<and> c \<noteq> 0x2026 \<and> (isWhiteSpace c \<longrightarrow> c = 32)"


fun singleSpaced :: "jsstring \<Rightarrow> bool" where
  "singleSpaced [] = True"
| "singleSpaced [c] = True"
| "singleSpaced (c # d # cs) = (\<not> (isWhiteSpace c \<and> isWhiteSpace d) \<and> singleSpaced (d # cs))"

definition trimmed :: "jsstring \<Rightarrow> bool" where
  "trimmed s \<longleftrightarrow> (s \<noteq> [] \<longrightarrow> \<not> isWhiteSpace (hd s) \<and> \<not> isWhiteSpace (last s))"

text \<open>The order of the numbers that occur as sort keys; \<open>NaN\<close> compares with nothing.\<close>

fun lessEq_js :: "jsnumber \<Rightarrow> jsnumber \<Rightarrow> bool" where
  "lessEq_js (Num a) (Num b) = (a \<le> b)"
| "lessEq_js NaN _ = False"
| "lessEq_js _ NaN = False"
| "lessEq_js NegInfinity _ = True"
| "lessEq_js _ PosInfinity = True"
| "lessEq_js PosInfinity _ = False"
| "lessEq_js _ NegInfinity = False"

text \<open>An annotation is unmatched when its sort key is \<open>Infinity\<close>; the passage of
  an annotation is the feedback item that its three fields repeat.\<close>

definition isUnmatched :: "Annotation \<Rightarrow> bool" where
  "isUnmatched a = (anno_startIndex a = PosInfinity)"

definition passageOf :: "Annotation \<Rightarrow> FeedbackPassage" where
  "passageOf a =
     \<lparr>referenced_student_text_quote = anno_quote a,
      feedback = anno_feedback a,
      quote_from_marking_guidelines = anno_guideline a\<rparr>"

definition passagesOf :: "FeedbackPassage list option \<Rightarrow> FeedbackPassage list" where
  "passagesOf fb = (case fb of None \<Rightarrow> [] | Some passages \<Rightarrow> passages)"

text \<open>The sort key of an annotation as a pair, finite keys before \<open>Infinity\<close>.\<close>

definition startKey :: "Annotation \<Rightarrow> nat \<times> int" where
  "startKey a = (case anno_startIndex a of Num i \<Rightarrow> (0, i) | _ \<Rightarrow> (1, 0))"

text \<open>The sort keys that the page produces: a finite index or \<open>Infinity\<close>.\<close>

definition keyed :: "Annotation \<Rightarrow> bool" where
  "keyed a \<longleftrightarrow> (\<exists>i. anno_startIndex a = Num i) \<or> anno_startIndex a = PosInfinity"

text \<open>
  What the loop records for a matched passage, under its quote as the key: a passage
  of the feedback list with that quote, and the identifier made from the index of a
  passage with that quote.
\<close>

definition placedEntry :: "FeedbackPassage list \<Rightarrow> jsstring \<times> MatchedInfo \<Rightarrow> bool" where
  "placedEntry passages e \<longleftrightarrow>
     referenced_student_text_quote (matched_passage (snd e)) = fst e \<and>
     matched_passage (snd e) \<in> set passages \<and>
     (\<exists>i < length passages.
        matched_id (snd e) = js ''annotation-'' @ toStringNat i \<and>
        referenced_student_text_quote (passages ! i) = fst e)"

text \<open>
  \<open>insertsMarkup active s t\<close>: the text \<open>t\<close> comes from \<open>s\<close> by steps that
  each put the opening and the closing markup of a highlight around a segment of the
  text and change nothing else.
\<close>

inductive insertsMarkup :: "jsstring option \<Rightarrow> jsstring \<Rightarrow> jsstring \<Rightarrow> bool" where
  same: "insertsMarkup active s s"
| wrap: "insertsMarkup active s (a @ b @ c) \<Longrightarrow>
         insertsMarkup active s (a @ highlightOpen active ident @ b @ highlightClose @ c)"

text \<open>
  \<open>stableStartIndex\<close> of the loop: the start of the match of a quote in the original
  text, or \<open>-1\<close> when the matcher finds nothing there.
\<close>

definition stableStartIndex :: "jsstring \<Rightarrow> jsstring \<Rightarrow> int" where
  "stableStartIndex originalHtml quote =
     (case findBestSubstringMatch quote originalHtml of
        Some m \<Rightarrow> startIndex m
      | None \<Rightarrow> - 1)"

text \<open>
  An entry of \<open>matchedPassages\<close> is placed in a document when its quote was matched
  with similarity at least 0.7 in a text that comes from the document by inserted
  markup, and when the entry holds the stable start index of its quote.
\<close>

definition placedIn :: "jsstring option \<Rightarrow> jsstring \<Rightarrow> jsstring \<times> MatchedInfo \<Rightarrow> bool" where
  "placedIn active originalHtml e \<longleftrightarrow>
     (\<exists>working match.
        insertsMarkup active originalHtml working \<and>
        findBestSubstringMatch (fst e) working = Some match \<and>
        0.7 \<le> similarity match) \<and>
     matched_startIndex (snd e) = stableStartIndex originalHtml (fst e)"

section \<open>Properties of the normalizer\<close>

lemma toLowerCodeUnit_idem: "toLowerCodeUnit (toLowerCodeUnit c) = toLowerCodeUnit c"
  by (simp add: toLowerCodeUnit_def)

lemma replace_unit_cases:
  "c \<in> set (map (\<lambda>c. if P c then k else c) s) \<Longrightarrow> (c \<in> set s \<and> \<not> P c) \<or> c = k"
  by auto

lemma ellipsis_unit_cases:
  "c \<in> set (replaceEllipsis s) \<Longrightarrow> (c \<in> set s \<and> c \<noteq> 0x2026) \<or> c = 46"
  by (auto simp: replaceEllipsis_def split: if_splits)

lemma lowered_units: "c \<in> set (toLowerCase t) \<Longrightarrow> toLowerCodeUnit c = c"
  by (auto simp: toLowerCase_def toLowerCodeUnit_idem)

lemma replaced_units:
  assumes "c \<in> set (replaceEllipsis (replaceDashes (replaceDoubleQuotes
             (replaceSingleQuotes (toLowerCase t)))))"
  shows "toLowerCodeUnit c = c \<and> c \<noteq> 0x2018 \<and> c \<noteq> 0x2019 \<and> c \<noteq> 0x201C \<and> c \<noteq> 0x201D \<and>
         c \<noteq> 0x2013 \<and> c \<noteq> 0x2014 \<and> c \<noteq> 0x2026"
proof -
  let ?s1 = "replaceSingleQuotes (toLowerCase t)"
  let ?s2 = "replaceDoubleQuotes ?s1"
  let ?s3 = "replaceDashes ?s2"
  have low: "toLowerCodeUnit k = k" if "k = 39 \<or> k = 34 \<or> k = 45 \<or> k = 46" for k
    using that by (auto simp: toLowerCodeUnit_def)
  have 1: "toLowerCodeUnit d = d \<and> d \<noteq> 0x2018 \<and> d \<noteq> 0x2019" if "d \<in> set ?s1" for d
    using replace_unit_cases [OF that [unfolded replaceSingleQuotes_def]] lowered_units [of d t] low [of d]
    by auto
  have 2: "toLowerCodeUnit d = d \<and> d \<noteq> 0x2018 \<and> d \<noteq> 0x2019 \<and> d \<noteq> 0x201C \<and> d \<noteq> 0x201D"
    if "d \<in> set ?s2" for d
    using replace_unit_cases [OF that [unfolded replaceDoubleQuotes_def]] 1 [of d] low [of d]
    by auto
  have 3: "toLowerCodeUnit d = d \<and> d \<noteq> 0x2018 \<and> d \<noteq> 0x2019 \<and> d \<noteq> 0x201C \<and> d \<noteq> 0x201D \<and>
           d \<noteq> 0x2013 \<and> d \<noteq> 0x2014"
    if "d \<in> set ?s3" for d
    using replace_unit_cases [OF that [unfolded replaceDashes_def]] 2 [of d] low [of d]
    by auto
  show ?thesis
    using ellipsis_unit_cases [OF assms] 3 [of c] low [of c] by auto
qed

lemma collapse_units:
  "c \<in> set (collapseWhiteSpace s) \<Longrightarrow> (c \<in> set s \<and> \<not> isWhiteSpace c) \<or> c = 32"
proof (induction s rule: collapseWhiteSpace.induct)
  case 1
  then show ?case by simp
next
  case (2 d ds)
  then show ?case
    by (auto split: if_splits dest: set_dropWhileD)
qed

lemma collapse_settled:
  assumes "c \<in> set (collapseWhiteSpace (replaceEllipsis (replaceDashes (replaceDoubleQuotes
             (replaceSingleQuotes (toLowerCase t))))))"
  shows "settledUnit c"
proof -
  from collapse_units [OF assms] show ?thesis
  proof
    assume "c \<in> set (replaceEllipsis (replaceDashes (replaceDoubleQuotes
             (replaceSingleQuotes (toLowerCase t))))) \<and> \<not> isWhiteSpace c"
    then show ?thesis using replaced_units [of c t] by (simp add: settledUnit_def)
  next
    assume "c = 32"
    then show ?thesis by (simp add: settledUnit_def toLowerCodeUnit_def)
  qed
qed

lemma dropWhile_hd: "dropWhile P xs \<noteq> [] \<Longrightarrow> \<not> P (hd (dropWhile P xs))"
  by (simp add: hd_dropWhile)

lemma collapse_singleSpaced: "singleSpaced (collapseWhiteSpace s)"
proof (induction s rule: collapseWhiteSpace.induct)
  case 1
  then show ?case by simp
next
  case (2 c cs)
  show ?case
  proof (cases "isWhiteSpace c")
    case True
    let ?r = "dropWhile isWhiteSpace cs"
    have ih: "singleSpaced (collapseWhiteSpace ?r)" using 2 True by simp
    show ?thesis
    proof (cases ?r)
      case Nil
      then show ?thesis using True by (simp del: dropWhile_eq_Nil_conv)
    next
      case (Cons d ds)
      then have "\<not> isWhiteSpace d" using dropWhile_hd [of isWhiteSpace cs] by simp
      then show ?thesis using True ih Cons by simp
    qed
  next
    case False
    then have ih: "singleSpaced (collapseWhiteSpace cs)" using 2 by simp
    show ?thesis using False ih by (cases "collapseWhiteSpace cs") auto
  qed
qed

lemma singleSpaced_append_left: "singleSpaced (xs @ ys) \<Longrightarrow> singleSpaced xs"
  by (induction xs rule: singleSpaced.induct) auto

lemma singleSpaced_append_right: "singleSpaced (xs @ ys) \<Longrightarrow> singleSpaced ys"
proof (induction xs)
  case Nil
  then show ?case by simp
next
  case (Cons x xs)
  then show ?case by (cases "xs @ ys") auto
qed

lemma trim_segment: "\<exists>a b. s = a @ trim s @ b"
proof -
  let ?t = "dropWhile isWhiteSpace s"
  have "s = takeWhile isWhiteSpace s @ ?t" by simp
  moreover have "rev ?t = takeWhile isWhiteSpace (rev ?t) @ dropWhile isWhiteSpace (rev ?t)"
    by simp
  then have "?t = trim s @ rev (takeWhile isWhiteSpace (rev ?t))"
    unfolding trim_def by (metis rev_append rev_rev_ident)
  ultimately have "s = takeWhile isWhiteSpace s @ trim s @ rev (takeWhile isWhiteSpace (rev ?t))"
    by simp
  then show ?thesis by blast
qed

lemma trim_singleSpaced: "singleSpaced s \<Longrightarrow> singleSpaced (trim s)"
  using trim_segment [of s] singleSpaced_append_left singleSpaced_append_right by metis

lemma trim_subset: "set (trim s) \<subseteq> set s"
  using trim_segment [of s] by (metis Un_upper1 Un_upper2 set_append subset_trans)

lemma trim_trimmed: "trimmed (trim s)"
proof -
  let ?t = "dropWhile isWhiteSpace s"
  let ?w = "dropWhile isWhiteSpace (rev ?t)"
  show ?thesis
  proof (cases "?w = []")
    case True
    then show ?thesis by (simp add: trimmed_def trim_def)
  next
    case False
    then have w: "\<not> isWhiteSpace (hd ?w)" by (rule dropWhile_hd)
    from False have t: "?t \<noteq> []" by (metis dropWhile.simps(1) rev.simps(1))
    then have ht: "\<not> isWhiteSpace (hd ?t)" by (rule dropWhile_hd)
    have "\<exists>p. rev ?t = p @ ?w" by (metis takeWhile_dropWhile_id)
    then obtain p where p: "rev ?t = p @ ?w" ..
    then have "last ?w = last (rev ?t)" using False by (metis last_appendR)
    then have "last ?w = hd ?t" using t by (simp add: last_rev)
    then show ?thesis using w ht False
      by (simp add: trimmed_def trim_def hd_rev last_rev)
  qed
qed

lemma collapse_fixed:
  "singleSpaced s \<Longrightarrow> \<forall>c \<in> set s. isWhiteSpace c \<longrightarrow> c = 32 \<Longrightarrow> collapseWhiteSpace s = s"
proof (induction s rule: collapseWhiteSpace.induct)
  case 1
  then show ?case by simp
next
  case (2 c cs)
  show ?case
  proof (cases "isWhiteSpace c")
    case True
    then have c: "c = 32" using 2 by simp
    have d: "dropWhile isWhiteSpace cs = cs" using 2(3) True by (cases cs) auto
    have "singleSpaced cs" using 2(3) by (cases cs) auto
    then have "collapseWhiteSpace cs = cs" using 2 True d by simp
    then show ?thesis using True c d by simp
  next
    case False
    have "singleSpaced cs" using 2(3) by (cases cs) auto
    then show ?thesis using 2 False by simp
  qed
qed

lemma dropWhile_fixed: "xs = [] \<or> \<not> P (hd xs) \<Longrightarrow> dropWhile P xs = xs"
  by (cases xs) auto

lemma trim_fixed: "trimmed s \<Longrightarrow> trim s = s"
proof (cases "s = []")
  case True
  then show ?thesis by (simp add: trim_def)
next
  case False
  assume "trimmed s"
  then have h: "\<not> isWhiteSpace (hd s)" and l: "\<not> isWhiteSpace (last s)"
    using False by (simp_all add: trimmed_def)
  have a: "dropWhile isWhiteSpace s = s" using h by (intro dropWhile_fixed) simp
  have "hd (rev s) = last s" using False by (simp add: hd_rev)
  then have b: "dropWhile isWhiteSpace (rev s) = rev s" using l by (intro dropWhile_fixed) simp
  show ?thesis by (simp add: trim_def a b)
qed

lemma ellipsis_fixed: "0x2026 \<notin> set s \<Longrightarrow> replaceEllipsis s = s"
  by (induction s) (auto simp: replaceEllipsis_def)

lemma settled_fixed:
  assumes "\<forall>c \<in> set s. settledUnit c"
  shows "replaceEllipsis (replaceDashes (replaceDoubleQuotes
             (replaceSingleQuotes (toLowerCase s)))) = s"
proof -
  have a: "toLowerCase s = s"
    using assms by (simp add: toLowerCase_def settledUnit_def map_idI)
  have b: "replaceSingleQuotes s = s"
    using assms unfolding replaceSingleQuotes_def settledUnit_def by (intro map_idI) auto
  have c: "replaceDoubleQuotes s = s"
    using assms unfolding replaceDoubleQuotes_def settledUnit_def by (intro map_idI) auto
  have d: "replaceDashes s = s"
    using assms unfolding replaceDashes_def settledUnit_def by (intro map_idI) auto
  have "0x2026 \<notin> set s" using assms by (auto simp: settledUnit_def)
  then have e: "replaceEllipsis s = s" by (rule ellipsis_fixed)
  show ?thesis by (simp add: a b c d e)
qed

lemma normalizeText_unfold:
  "normalizeText s = trim (collapseWhiteSpace (replaceEllipsis (replaceDashes
      (replaceDoubleQuotes (replaceSingleQuotes (toLowerCase s))))))"
  by (simp add: normalizeText_def trim_def replaceEllipsis_def replaceDashes_def
      replaceDoubleQuotes_def replaceSingleQuotes_def toLowerCase_def)

lemma normalizeText_basic_latin_idempotent: "normalizeText (normalizeText t) = normalizeText t"
proof -
  let ?v = "collapseWhiteSpace (replaceEllipsis (replaceDashes (replaceDoubleQuotes
             (replaceSingleQuotes (toLowerCase t)))))"
  let ?r = "normalizeText t"
  have r: "?r = trim ?v" by (rule normalizeText_unfold)
  have units: "\<forall>c \<in> set ?r. settledUnit c"
    using trim_subset [of ?v] collapse_settled [of _ t] unfolding r by blast
  have spaced: "singleSpaced ?r" unfolding r by (rule trim_singleSpaced [OF collapse_singleSpaced])
  have tr: "trimmed ?r" unfolding r by (rule trim_trimmed)
  have ws: "\<forall>c \<in> set ?r. isWhiteSpace c \<longrightarrow> c = 32" using units by (simp add: settledUnit_def)
  have "normalizeText ?r = trim (collapseWhiteSpace (replaceEllipsis (replaceDashes
          (replaceDoubleQuotes (replaceSingleQuotes (toLowerCase ?r))))))"
    by (rule normalizeText_unfold)
  also have "\<dots> = trim (collapseWhiteSpace ?r)"
    by (simp only: settled_fixed [OF units])
  also have "\<dots> = trim ?r" by (simp add: collapse_fixed [OF spaced ws])
  also have "\<dots> = ?r" by (rule trim_fixed [OF tr])
  finally show ?thesis .
qed

section \<open>Properties of the substring matcher\<close>

subsection \<open>Sorting\<close>

lemma set_insertBy: "set (insertBy cmp x ys) = insert x (set ys)"
  by (induction ys) auto

lemma set_sortBy: "set (sortBy cmp xs) = set xs"
  by (induction xs) (auto simp: sortBy_def set_insertBy)

subsection \<open>Searching\<close>

lemma indexOfFrom_bounds:
  "0 \<le> indexOfFrom pat s i \<Longrightarrow> int i \<le> indexOfFrom pat s i \<and> indexOfFrom pat s i \<le> int (i + length s)"
  by (induction s arbitrary: i) (auto split: if_splits, force+)

lemma indexOf_bounds: "0 \<le> indexOf s pat \<Longrightarrow> indexOf s pat \<le> int (length s)"
  using indexOfFrom_bounds [of pat s 0] by (simp add: indexOf_def)

lemma searchFrom_bounds: "searchFrom re s i = Some j \<Longrightarrow> i \<le> j \<and> j \<le> i + length s"
  by (induction s arbitrary: i) (auto split: if_splits, force+)

lemma regExpMatch_bounds: "regExpMatch p s = Inr (Some j) \<Longrightarrow> j \<le> length s"
  using searchFrom_bounds [of _ s 0 j]
  by (auto simp: regExpMatch_def split: sum.splits)

subsection \<open>The three strategies\<close>

lemma filter_holds: "x \<in> set (filter P xs) \<Longrightarrow> P x"
  by simp

lemma chunkStrategy_Some:
  assumes "chunkStrategy needle haystack = Some m"
  shows "similarity m = 0.9 \<and> 0 \<le> startIndex m \<and>
         endIndex m = min (int (length haystack)) (startIndex m + int (length needle) + 20)"
proof -
  define nn where "nn = normalizeText needle"
  define hn where "hn = normalizeText haystack"
  define len where "len = int (length nn)"
  define c0 where "c0 = substring nn 0 30"
  define c1 where "c1 = substring nn (len div 2 - 15) (len div 2 + 15)"
  define c2 where "c2 = substringFrom nn (len - 30)"
  define locs where
    "locs = filter (\<lambda>(chunk, idx). idx \<ge> 0) (map (\<lambda>chunk. (chunk, indexOf hn chunk)) [c0, c1, c2])"
  define est where "est = (\<lambda>fc :: jsstring \<times> int.
     if fst fc = c0 then snd fc
     else if fst fc = c1 then max 0 (snd fc - len div 2 + 15)
     else max 0 (snd fc - len + 30))"
  define ans where "ans = (\<lambda>fc. \<lparr>startIndex = est fc,
      endIndex = min (int (length haystack)) (est fc + int (length needle) + 20),
      matchedText = substring haystack (est fc)
         (min (int (length haystack)) (est fc + int (length needle) + 20)),
      similarity = 0.9\<rparr>)"
  have unfold: "chunkStrategy needle haystack =
     (if len > 50 then
        (if length locs > 0 then
           (case sortBy (\<lambda>a b. Num (snd a - snd b)) locs of [] \<Rightarrow> None | fc # _ \<Rightarrow> Some (ans fc))
         else None)
      else None)"
    unfolding chunkStrategy_def Let_def ans_def est_def locs_def c0_def c1_def c2_def len_def
      nn_def hn_def by (rule refl)
  from assms obtain fc rest where s: "sortBy (\<lambda>a b. Num (snd a - snd b)) locs = fc # rest"
    and m: "m = ans fc"
    unfolding unfold by (auto split: if_splits list.splits)
  have "fc \<in> set locs" using set_sortBy [of _ locs] s by (metis list.set_intros(1))
  then have "case fc of (chunk, idx) \<Rightarrow> 0 \<le> idx"
    unfolding locs_def by (rule filter_holds)
  then have pos: "0 \<le> snd fc" by (simp add: case_prod_beta)
  then have "0 \<le> est fc" by (simp add: est_def)
  then show ?thesis by (simp add: m ans_def)
qed


lemma wordSeqLoop_Some:
  assumes "wordSeqLoop rx needle haystack hn words i = Some m"
  shows "\<exists>j index. i \<le> j \<and> int j \<le> int (length words) - 3 \<and>
           rx (wordSeqPattern words j) hn = Inr (Some index) \<and>
           m = \<lparr>startIndex = max 0 (int index - 20),
                endIndex = min (int (length hn)) (int index + int (length needle) + 20),
                matchedText = substring haystack (max 0 (int index - 20))
                   (min (int (length hn)) (int index + int (length needle) + 20)),
                similarity = 0.85\<rparr>"
  using assms
proof (induction rx needle haystack hn words i rule: wordSeqLoop.induct)
  case (1 rx needle haystack hn words i)
  from "1.prems" have range: "int i \<le> int (length words) - 3"
    by (subst (asm) wordSeqLoop.simps) (simp split: if_splits)
  show ?case
  proof (cases "rx (wordSeqPattern words i) hn")
    case (Inl e)
    then have "wordSeqLoop rx needle haystack hn words (Suc i) = Some m"
      using "1.prems" range by (subst (asm) wordSeqLoop.simps) simp
    from "1.IH"(1) [OF range refl Inl this] obtain j index where
      "Suc i \<le> j" and rest: "int j \<le> int (length words) - 3"
        "rx (wordSeqPattern words j) hn = Inr (Some index)"
        "m = \<lparr>startIndex = max 0 (int index - 20),
                endIndex = min (int (length hn)) (int index + int (length needle) + 20),
                matchedText = substring haystack (max 0 (int index - 20))
                   (min (int (length hn)) (int index + int (length needle) + 20)),
                similarity = 0.85\<rparr>"
      by blast
    then have "i \<le> j" by simp
    with rest show ?thesis by (intro exI [of _ j] exI [of _ index] conjI)
  next
    case (Inr r)
    show ?thesis
    proof (cases r)
      case None
      then have "wordSeqLoop rx needle haystack hn words (Suc i) = Some m"
        using "1.prems" range Inr by (subst (asm) wordSeqLoop.simps) simp
      from "1.IH"(2) [OF range refl Inr None this] obtain j index where
        "Suc i \<le> j" and rest: "int j \<le> int (length words) - 3"
          "rx (wordSeqPattern words j) hn = Inr (Some index)"
          "m = \<lparr>startIndex = max 0 (int index - 20),
                endIndex = min (int (length hn)) (int index + int (length needle) + 20),
                matchedText = substring haystack (max 0 (int index - 20))
                   (min (int (length hn)) (int index + int (length needle) + 20)),
                similarity = 0.85\<rparr>"
        by blast
      then have "i \<le> j" by simp
      with rest show ?thesis by (intro exI [of _ j] exI [of _ index] conjI)
    next
      case (Some index)
      then have "m = \<lparr>startIndex = max 0 (int index - 20),
                endIndex = min (int (length hn)) (int index + int (length needle) + 20),
                matchedText = substring haystack (max 0 (int index - 20))
                   (min (int (length hn)) (int index + int (length needle) + 20)),
                similarity = 0.85\<rparr>"
        using "1.prems" range Inr by (subst (asm) wordSeqLoop.simps) (simp add: Let_def)
      then show ?thesis using range Inr Some
        by (intro exI [of _ i] exI [of _ index] conjI) simp_all
    qed
  qed
qed

lemma singleWordLoop_Some:
  assumes "singleWordLoop needle haystack hn ws = Some m"
  shows "\<exists>w \<in> set ws. 0 \<le> indexOf hn (escapeRegExp (toLowerCase w)) \<and>
           m = \<lparr>startIndex = max 0 (indexOf hn (escapeRegExp (toLowerCase w)) - 10),
                endIndex = min (int (length hn))
                   (indexOf hn (escapeRegExp (toLowerCase w)) + int (length needle) + 10),
                matchedText = substring haystack
                   (max 0 (indexOf hn (escapeRegExp (toLowerCase w)) - 10))
                   (min (int (length hn))
                      (indexOf hn (escapeRegExp (toLowerCase w)) + int (length needle) + 10)),
                similarity = 0.7\<rparr>"
  using assms
  by (induction ws) (auto simp: Let_def split: if_splits)

subsection \<open>Evaluation on concrete strings\<close>

lemmas normalize_eval = normalizeText_def trim_def isWhiteSpace_def replaceEllipsis_def
  replaceDashes_def replaceDoubleQuotes_def replaceSingleQuotes_def toLowerCase_def
  toLowerCodeUnit_def js_def

lemmas matcher_eval = findBestSubstringMatch_def findBestSubstringMatchWith_def chunkStrategy_def
  wordSeqStrategy_def singleWordStrategy_def significantWords_def significant_def split_def
  sortBy_def substring_def substringFrom_def indexOf_def escapeRegExp_def isSyntaxCharacter_def
  regExpMatch_def addItem_def canonicalize_def wordSeqLoop.simps wordSeqPattern_def Let_def

subsection \<open>The length guard\<close>

text \<open>
  Claim C6. For every quote whose raw length is less than 10 characters and for every
  haystack, the substring matcher returns none.
\<close>

theorem short_quote_none:
  "length quote < 10 \<Longrightarrow> findBestSubstringMatch quote haystack = None"
  by (simp add: findBestSubstringMatch_def findBestSubstringMatchWith_def)

theorem short_quote_none_witness:
  "length quoteShort < 10 \<and> findBestSubstringMatch quoteShort documentFox = None"
proof -
  have h: "length quoteShort < 10" by (simp add: quoteShort_def js_def)
  from short_quote_none [OF h] h show ?thesis by simp
qed

subsection \<open>The fixed similarity of each strategy\<close>

lemma wordSeqStrategy_similarity:
  "wordSeqStrategy rx needle haystack = Some m \<Longrightarrow> similarity m = 0.85"
  using wordSeqLoop_Some [of rx needle haystack "normalizeText haystack" "significant needle" 0 m]
  by (auto simp: wordSeqStrategy_def Let_def split: if_splits)

lemma singleWordStrategy_similarity:
  "singleWordStrategy needle haystack = Some m \<Longrightarrow> similarity m = 0.7"
  using singleWordLoop_Some [of needle haystack "normalizeText haystack" "significantWords needle" m]
  by (auto simp: singleWordStrategy_def Let_def split: if_splits)

lemma findBestSubstringMatch_cases:
  assumes "findBestSubstringMatch needle haystack = Some m"
  shows "(chunkStrategy needle haystack = Some m \<and> similarity m = 0.9) \<or>
         (chunkStrategy needle haystack = None \<and>
          wordSeqStrategy regExpMatch needle haystack = Some m \<and> similarity m = 0.85) \<or>
         (chunkStrategy needle haystack = None \<and>
          wordSeqStrategy regExpMatch needle haystack = None \<and>
          singleWordStrategy needle haystack = Some m \<and> similarity m = 0.7)"
proof (cases "chunkStrategy needle haystack")
  case (Some a)
  then have "a = m" using assms
    by (simp add: findBestSubstringMatch_def findBestSubstringMatchWith_def split: if_splits)
  then show ?thesis using Some chunkStrategy_Some [of needle haystack m] by simp
next
  case None
  show ?thesis
  proof (cases "wordSeqStrategy regExpMatch needle haystack")
    case (Some a)
    then have "a = m" using assms None
      by (simp add: findBestSubstringMatch_def findBestSubstringMatchWith_def split: if_splits)
    then show ?thesis using None Some wordSeqStrategy_similarity [of regExpMatch needle haystack m]
      by simp
  next
    case inner: None
    then have "singleWordStrategy needle haystack = Some m" using assms None
      by (simp add: findBestSubstringMatch_def findBestSubstringMatchWith_def split: if_splits)
    then show ?thesis using None inner singleWordStrategy_similarity [of needle haystack m]
      by simp
  qed
qed

text \<open>
  Claim C7. Whenever the substring matcher returns a result, its similarity is 0.9 when
  the chunk strategy succeeded, 0.85 when the word-sequence strategy succeeded, and 0.7
  when the single-word fallback succeeded; there is no other case.
\<close>

theorem similarity_by_strategy:
  assumes "findBestSubstringMatch needle haystack = Some m"
  shows "(chunkStrategy needle haystack = Some m \<and> similarity m = 0.9) \<or>
         (chunkStrategy needle haystack = None \<and>
          wordSeqStrategy regExpMatch needle haystack = Some m \<and> similarity m = 0.85) \<or>
         (chunkStrategy needle haystack = None \<and>
          wordSeqStrategy regExpMatch needle haystack = None \<and>
          singleWordStrategy needle haystack = Some m \<and> similarity m = 0.7)"
  using assms by (rule findBestSubstringMatch_cases)

lemma essays_match:
  "findBestSubstringMatch quoteEssays documentEssays =
     Some \<lparr>startIndex = 0, endIndex = 50, matchedText = documentEssays, similarity = 0.85\<rparr>"
  by (simp add: quoteEssays_def documentEssays_def normalize_eval matcher_eval)

lemma essays_no_chunk: "chunkStrategy quoteEssays documentEssays = None"
  by (simp add: quoteEssays_def documentEssays_def normalize_eval chunkStrategy_def)

theorem similarity_by_strategy_witness:
  "findBestSubstringMatch quoteEssays documentEssays =
     Some \<lparr>startIndex = 0, endIndex = 50, matchedText = documentEssays, similarity = 0.85\<rparr> \<and>
   wordSeqStrategy regExpMatch quoteEssays documentEssays =
     Some \<lparr>startIndex = 0, endIndex = 50, matchedText = documentEssays, similarity = 0.85\<rparr>"
  using similarity_by_strategy [OF essays_match] essays_match essays_no_chunk by simp

subsection \<open>The span of a result\<close>

lemma findBestSubstringMatch_span:
  assumes "findBestSubstringMatch needle haystack = Some m"
  shows "0 \<le> startIndex m \<and> (startIndex m \<le> endIndex m \<or> endIndex m = int (length haystack))"
proof -
  from findBestSubstringMatch_cases [OF assms] consider
    (chunk) "chunkStrategy needle haystack = Some m"
    | (words) "wordSeqStrategy regExpMatch needle haystack = Some m"
    | (single) "singleWordStrategy needle haystack = Some m"
    by blast
  then show ?thesis
  proof cases
    case chunk
    from chunkStrategy_Some [OF this] show ?thesis by auto
  next
    case words
    then have "wordSeqLoop regExpMatch needle haystack (normalizeText haystack)
                 (significant needle) 0 = Some m"
      by (simp add: wordSeqStrategy_def Let_def split: if_splits)
    from wordSeqLoop_Some [OF this] obtain j index where
      r: "regExpMatch (wordSeqPattern (significant needle) j) (normalizeText haystack) = Inr (Some index)"
      and s: "startIndex m = max 0 (int index - 20)"
      and e: "endIndex m = min (int (length (normalizeText haystack)))
                (int index + int (length needle) + 20)"
      by auto
    from regExpMatch_bounds [OF r] s e show ?thesis by auto
  next
    case single
    then have "singleWordLoop needle haystack (normalizeText haystack)
                 (significantWords needle) = Some m"
      by (simp add: singleWordStrategy_def Let_def split: if_splits)
    from singleWordLoop_Some [OF this] obtain w where
      i: "0 \<le> indexOf (normalizeText haystack) (escapeRegExp (toLowerCase w))"
      and s: "startIndex m = max 0 (indexOf (normalizeText haystack) (escapeRegExp (toLowerCase w)) - 10)"
      and e: "endIndex m = min (int (length (normalizeText haystack)))
                (indexOf (normalizeText haystack) (escapeRegExp (toLowerCase w)) + int (length needle) + 10)"
      by auto
    from indexOf_bounds [OF i] i s e show ?thesis by auto
  qed
qed

lemma riverbank_normalized: "normalizeText quoteRiverbank = quoteRiverbank"
  by (simp add: quoteRiverbank_def normalize_eval)

lemma leaders_normalized:
  "normalizeText documentLeaders =
     js ''................................................the quick brown fox jumps over''"
  by (simp add: documentLeaders_def normalize_eval)

lemma riverbank_length: "length quoteRiverbank = 62"
  by (simp add: quoteRiverbank_def js_def)

lemma leaders_length: "length documentLeaders = 46"
  by (simp add: documentLeaders_def js_def)

lemma riverbank_chunks:
  "substring quoteRiverbank 0 30 = js ''the quick brown fox jumps over''"
  "substring quoteRiverbank 16 46 = js ''fox jumps over the lazy dog ne''"
  "substringFrom quoteRiverbank 32 = js ''he lazy dog near the riverbank''"
  by (simp_all add: substringFrom_def substring_def riverbank_length)
     (simp_all add: quoteRiverbank_def js_def)

lemma leaders_locations:
  "indexOf (js ''................................................the quick brown fox jumps over'')
     (js ''the quick brown fox jumps over'') = 48"
  "indexOf (js ''................................................the quick brown fox jumps over'')
     (js ''fox jumps over the lazy dog ne'') = - 1"
  "indexOf (js ''................................................the quick brown fox jumps over'')
     (js ''he lazy dog near the riverbank'') = - 1"
  by (simp_all add: indexOf_def js_def)

lemma leaders_chunk:
  "chunkStrategy quoteRiverbank documentLeaders =
     Some \<lparr>startIndex = 48, endIndex = 46, matchedText = [], similarity = 0.9\<rparr>"
  unfolding chunkStrategy_def Let_def riverbank_normalized leaders_normalized
  by (simp add: riverbank_length leaders_length riverbank_chunks leaders_locations sortBy_def)
     (simp add: substring_def leaders_length)

text \<open>
  Claim C4 at a failing input. The quote is longer than 50 characters; the document is a
  line of sixteen ellipsis characters followed by the first 30 characters of the quote.
  The normalizer writes every ellipsis as three periods, so the chunk is found at
  position 48 of the normalized text, beyond the 46 characters of the document, and the
  result starts behind its own end.
\<close>

theorem span_validity_failing_input:
  "findBestSubstringMatch quoteRiverbank documentLeaders =
     Some \<lparr>startIndex = 48, endIndex = 46, matchedText = [], similarity = 0.9\<rparr> \<and>
   length documentLeaders = 46"
  by (simp add: findBestSubstringMatch_def findBestSubstringMatchWith_def riverbank_length
      leaders_chunk leaders_length)

text \<open>
  Claim C5 at a failing input. The quote is the single token \<open>wonderful.\<close>, ten
  characters long, and it occurs in the normalized document at position 6. The fallback
  looks for the escaped token, with a backslash before the period, and finds nothing.
\<close>

theorem single_word_failing_input:
  "findBestSubstringMatch quoteWonderful documentWonderful = None \<and>
   significantWords quoteWonderful = [quoteWonderful] \<and>
   indexOf (normalizeText documentWonderful) (toLowerCase quoteWonderful) = 6 \<and>
   escapeRegExp (toLowerCase quoteWonderful) = js ''wonderful'' @ [92, 46]"
  by (simp add: quoteWonderful_def documentWonderful_def normalize_eval matcher_eval)

subsection \<open>Escaped patterns and the handler of the loop\<close>

text \<open>The regular expression that the pattern of a list of words denotes.\<close>

lemma escapeRegExp_Cons:
  "escapeRegExp (c # w) = (if isSyntaxCharacter c then [92, c] else [c]) @ escapeRegExp w"
  by (simp add: escapeRegExp_def)

lemma escaped_head:
  assumes "p = [] \<or> hd p \<noteq> 43"
  shows "escapeRegExp w @ p = [] \<or> hd (escapeRegExp w @ p) \<noteq> 43"
proof (cases w)
  case Nil
  then show ?thesis using assms by (simp add: escapeRegExp_def)
next
  case (Cons c w')
  then show ?thesis by (auto simp: escapeRegExp_Cons isSyntaxCharacter_def)
qed

lemma parsePattern_unit:
  assumes "q = [] \<or> hd q \<noteq> 43" and "parsePattern q = Inr re"
  shows "parsePattern ((if isSyntaxCharacter c then [92, c] else [c]) @ q) = Inr (Once (Unit c) # re)"
proof (cases q)
  case Nil
  then show ?thesis using assms by (auto simp: isSyntaxCharacter_def)
next
  case (Cons d ds)
  then have d: "d \<noteq> 43" using assms by simp
  show ?thesis
  proof (cases "isSyntaxCharacter c")
    case True
    then have "c \<noteq> 115" by (auto simp: isSyntaxCharacter_def)
    then show ?thesis using True Cons d assms(2) by (simp add: addItem_def)
  next
    case False
    then have "c \<noteq> 92" by (auto simp: isSyntaxCharacter_def)
    then show ?thesis using False Cons d assms(2) by (simp add: addItem_def)
  qed
qed

lemma parsePattern_escaped:
  assumes "p = [] \<or> hd p \<noteq> 43" and "parsePattern p = Inr re"
  shows "parsePattern (escapeRegExp w @ p) = Inr (map (\<lambda>c. Once (Unit c)) w @ re)"
proof (induction w)
  case Nil
  then show ?case using assms by (simp add: escapeRegExp_def)
next
  case (Cons c w)
  have "parsePattern ((if isSyntaxCharacter c then [92, c] else [c]) @ (escapeRegExp w @ p)) =
        Inr (Once (Unit c) # (map (\<lambda>c. Once (Unit c)) w @ re))"
    by (rule parsePattern_unit [OF escaped_head [OF assms(1)] Cons.IH])
  then show ?case by (simp add: escapeRegExp_Cons)
qed

lemma parsePattern_separator:
  assumes "q = [] \<or> hd q \<noteq> 43" and "parsePattern q = Inr re"
  shows "parsePattern ([92, 115, 43] @ q) = Inr (OneOrMore WhiteSpaceClass # re)"
  using assms by (cases q) (auto simp: addItem_def)

lemma parsePattern_join:
  "\<exists>re. parsePattern (join (map escapeRegExp ws) [92, 115, 43]) = Inr re"
proof (induction ws rule: induct_list012)
  case 1
  then show ?case by simp
next
  case (2 w)
  show ?case using parsePattern_escaped [of "[]" "[]" w] by simp
next
  case (3 w v ws)
  then obtain re where re: "parsePattern (join (map escapeRegExp (v # ws)) [92, 115, 43]) = Inr re"
    by blast
  let ?q = "join (map escapeRegExp (v # ws)) [92, 115, 43]"
  have q: "?q = [] \<or> hd ?q \<noteq> 43"
  proof (cases ws)
    case Nil
    then show ?thesis using escaped_head [of "[]" v] by simp
  next
    case (Cons u us)
    then show ?thesis using escaped_head [of "[92, 115, 43] @ join (map escapeRegExp (u # us)) [92, 115, 43]" v]
      by simp
  qed
  have "parsePattern ([92, 115, 43] @ ?q) = Inr (OneOrMore WhiteSpaceClass # re)"
    by (rule parsePattern_separator [OF q re])
  from parsePattern_escaped [OF _ this, of w]
  show ?case by simp
qed

lemma regExpMatch_no_error: "regExpMatch (wordSeqPattern words i) subject \<noteq> Inl e"
  using parsePattern_join [of "take 3 (drop i words)"]
  by (auto simp: regExpMatch_def wordSeqPattern_def Let_def)

lemma wordSeqLoop_skip:
  assumes "rx (wordSeqPattern words i) hn = Inl e"
  shows "wordSeqLoop rx needle haystack hn words i =
         wordSeqLoop rx needle haystack hn words (Suc i)"
proof (cases "int i \<le> int (length words) - 3")
  case True
  then show ?thesis using assms by (subst wordSeqLoop.simps) simp
next
  case False
  then have "wordSeqLoop rx needle haystack hn words i = None"
    by (subst wordSeqLoop.simps) simp
  moreover from False have "wordSeqLoop rx needle haystack hn words (Suc i) = None"
    by (subst wordSeqLoop.simps) simp
  ultimately show ?thesis by simp
qed

lemma wordSeqLoop_all_raise:
  assumes "\<And>p s. \<exists>e. rx p s = Inl e"
  shows "wordSeqLoop rx needle haystack hn words i = None"
proof (induction "length words - i" arbitrary: i)
  case 0
  then show ?case by (subst wordSeqLoop.simps) simp
next
  case (Suc n)
  obtain e where e: "rx (wordSeqPattern words i) hn = Inl e" using assms by blast
  have "wordSeqLoop rx needle haystack hn words (Suc i) = None"
    using Suc by simp
  then show ?case
    using wordSeqLoop_skip [of rx words i hn e needle haystack, OF e] by simp
qed


text \<open>
  Claim C8. The substring matcher never raises, whatever the quote contains. Every
  pattern that the word-sequence strategy builds is accepted by the regular-expression
  engine, since each syntax character of a word is escaped. The handler of the loop
  covers an engine that raises all the same: a window on which the engine raises is
  skipped and the next window is tried, and when the engine raises on every window the
  matcher goes on to the single-word fallback. A fallback word that is not found is
  skipped in the same way, and the search ends with none when nothing is found.
\<close>

theorem matcher_never_raises:
  "regExpMatch (wordSeqPattern words i) subject \<noteq> Inl e \<and>
   (rx (wordSeqPattern words i) hn = Inl e \<longrightarrow>
      wordSeqLoop rx needle haystack hn words i =
      wordSeqLoop rx needle haystack hn words (Suc i)) \<and>
   ((\<forall>p s. \<exists>e. rx p s = Inl e) \<longrightarrow>
      findBestSubstringMatchWith rx needle haystack =
        (if length needle < 10 then None
         else case chunkStrategy needle haystack of
                Some m \<Rightarrow> Some m
              | None \<Rightarrow> singleWordStrategy needle haystack)) \<and>
   (indexOf hn (escapeRegExp (toLowerCase w)) < 0 \<longrightarrow>
      singleWordLoop needle haystack hn (w # rest) = singleWordLoop needle haystack hn rest) \<and>
   singleWordLoop needle haystack hn [] = None"
proof (intro conjI impI)
  show "regExpMatch (wordSeqPattern words i) subject \<noteq> Inl e"
    by (rule regExpMatch_no_error)
next
  assume "rx (wordSeqPattern words i) hn = Inl e"
  then show "wordSeqLoop rx needle haystack hn words i =
             wordSeqLoop rx needle haystack hn words (Suc i)"
    by (rule wordSeqLoop_skip)
next
  assume "\<forall>p s. \<exists>e. rx p s = Inl e"
  then have "wordSeqStrategy rx needle haystack = None"
    by (simp add: wordSeqStrategy_def Let_def wordSeqLoop_all_raise)
  then show "findBestSubstringMatchWith rx needle haystack =
        (if length needle < 10 then None
         else case chunkStrategy needle haystack of
                Some m \<Rightarrow> Some m
              | None \<Rightarrow> singleWordStrategy needle haystack)"
    by (simp add: findBestSubstringMatchWith_def split: option.split)
next
  assume "indexOf hn (escapeRegExp (toLowerCase w)) < 0"
  then show "singleWordLoop needle haystack hn (w # rest) = singleWordLoop needle haystack hn rest"
    by (simp add: Let_def)
next
  show "singleWordLoop needle haystack hn [] = None" by simp
qed

lemma essays_normalized:
  "normalizeText documentEssays = js ''many students write their essays without planning.''"
  by (simp add: documentEssays_def normalize_eval)

lemma essays_fallback:
  "singleWordStrategy quoteEssays documentEssays =
     Some \<lparr>startIndex = 0, endIndex = 42,
           matchedText = js ''Many students write their essays without p'', similarity = 0.7\<rparr>"
  unfolding singleWordStrategy_def Let_def essays_normalized
  by (simp add: quoteEssays_def documentEssays_def significantWords_def significant_def split_def
      isWhiteSpace_def sortBy_def escapeRegExp_def isSyntaxCharacter_def toLowerCase_def
      toLowerCodeUnit_def indexOf_def substring_def js_def)

theorem matcher_never_raises_witness:
  "(\<lambda>p s. Inl SyntaxError) (wordSeqPattern (significant quoteEssays) 0)
      (normalizeText documentEssays) = (Inl SyntaxError :: jsError + nat option) \<and>
   (\<forall>p s :: jsstring. \<exists>e. (\<lambda>p s. Inl SyntaxError :: jsError + nat option) p s = Inl e) \<and>
   indexOf (normalizeText documentEssays) (escapeRegExp (toLowerCase (js ''thesis''))) < 0 \<and>
   findBestSubstringMatchWith (\<lambda>p s. Inl SyntaxError) quoteEssays documentEssays =
     Some \<lparr>startIndex = 0, endIndex = 42,
           matchedText = js ''Many students write their essays without p'', similarity = 0.7\<rparr> \<and>
   singleWordLoop quoteEssays documentEssays (normalizeText documentEssays) [js ''thesis''] = None"
proof -
  let ?rx = "\<lambda>(p :: jsstring) (s :: jsstring). (Inl SyntaxError :: jsError + nat option)"
  have a: "\<forall>p s. \<exists>e. ?rx p s = Inl e" by simp
  have b: "indexOf (normalizeText documentEssays) (escapeRegExp (toLowerCase (js ''thesis''))) < 0"
    unfolding essays_normalized
    by (simp add: escapeRegExp_def isSyntaxCharacter_def toLowerCase_def toLowerCodeUnit_def
        indexOf_def js_def)
  have c: "length quoteEssays = 27" by (simp add: quoteEssays_def js_def)
  note t = matcher_never_raises [of "significant quoteEssays" 0 "normalizeText documentEssays"
      SyntaxError ?rx "normalizeText documentEssays" quoteEssays documentEssays "js ''thesis''" "[]"]
  from t a b show ?thesis by (simp add: c essays_no_chunk essays_fallback)
qed

section \<open>Properties of the placement\<close>

subsection \<open>Cutting a text with substring\<close>

lemma substring_ordered:
  assumes "0 \<le> a" and "a \<le> b"
  shows "substring s a b =
           take (min (nat b) (length s) - min (nat a) (length s)) (drop (min (nat a) (length s)) s)"
proof -
  let ?n = "int (length s)"
  have f: "min (min (max a 0) ?n) (min (max b 0) ?n) = min a ?n" using assms by auto
  have t: "max (min (max a 0) ?n) (min (max b 0) ?n) = min b ?n" using assms by auto
  have x: "nat (min a ?n) = min (nat a) (length s)" using assms by auto
  have y: "nat (min b ?n - min a ?n) = min (nat b) (length s) - min (nat a) (length s)"
    using assms by (auto simp: min_def)
  show ?thesis unfolding substring_def Let_def f t x y ..
qed

lemma substring_beyond:
  assumes "int (length s) \<le> a" and "int (length s) \<le> b"
  shows "substring s a b = []"
  using assms by (simp add: substring_def Let_def)

lemma substring_cut:
  assumes "0 \<le> a" and "a \<le> b \<or> b = int (length s)"
  shows "substring s 0 a @ substring s a b @ substringFrom s b = s"
proof (cases "a \<le> b")
  case True
  let ?x = "min (nat a) (length s)"
  let ?y = "min (nat b) (length s)"
  have xy: "?x \<le> ?y" using assms True by auto
  have 1: "substring s 0 a = take ?x s"
    using substring_ordered [of 0 a s] assms by simp
  have 2: "substring s a b = take (?y - ?x) (drop ?x s)"
    using substring_ordered [of a b s] assms True by simp
  have 3: "substringFrom s b = drop ?y s"
  proof (cases "b \<le> int (length s)")
    case le: True
    then show ?thesis
      unfolding substringFrom_def using substring_ordered [of b "int (length s)" s] assms True
      by simp
  next
    case False
    then show ?thesis unfolding substringFrom_def by (simp add: substring_beyond)
  qed
  have "take ?x s @ take (?y - ?x) (drop ?x s) = take ?y s"
    using xy by (metis le_add_diff_inverse take_add)
  then show ?thesis unfolding 1 2 3 by (metis append.assoc append_take_drop_id)
next
  case False
  then have b: "b = int (length s)" and a: "int (length s) \<le> a" using assms by auto
  have 1: "substring s 0 a = s" using substring_ordered [of 0 a s] assms a by simp
  have 2: "substring s a b = []" using a b by (simp add: substring_beyond)
  have 3: "substringFrom s b = []" unfolding substringFrom_def using b by (simp add: substring_beyond)
  show ?thesis by (simp add: 1 2 3)
qed


subsection \<open>Placement only inserts markup\<close>

lemma placePassage_cases:
  obtains (unchanged) "placePassage active original pm passage st = st"
  | (wrapped) info match stable where
      "mapGet pm (referenced_student_text_quote passage) = Some info"
      "findBestSubstringMatch (referenced_student_text_quote passage) (processedHtml st) = Some match"
      "placePassage active original pm passage st =
        \<lparr>processedHtml =
           substring (processedHtml st) 0 (startIndex match) @
           (highlightOpen active (info_id info) @
            substring (processedHtml st) (startIndex match) (endIndex match) @ highlightClose) @
           substringFrom (processedHtml st) (endIndex match),
         matchedPassages =
           mapSet (referenced_student_text_quote passage)
             \<lparr>matched_passage = passage, matched_id = info_id info, matched_startIndex = stable\<rparr>
             (matchedPassages st)\<rparr>"
      "stable = stableStartIndex original (referenced_student_text_quote passage)"
      "0.7 \<le> similarity match"
proof (cases "mapGet pm (referenced_student_text_quote passage)")
  case None
  then have "placePassage active original pm passage st = st"
    by (simp add: placePassage_def)
  then show ?thesis by (rule unchanged)
next
  case info: (Some info)
  show ?thesis
  proof (cases "findBestSubstringMatch (referenced_student_text_quote passage) (processedHtml st)")
    case None
    then have "placePassage active original pm passage st = st"
      using info by (simp add: placePassage_def)
    then show ?thesis by (rule unchanged)
  next
    case match: (Some match)
    show ?thesis
    proof (cases "similarity match \<ge> 0.7")
      case False
      then have "placePassage active original pm passage st = st"
        using info match by (simp add: placePassage_def)
      then show ?thesis by (rule unchanged)
    next
      case True
      then have "placePassage active original pm passage st =
        \<lparr>processedHtml =
           substring (processedHtml st) 0 (startIndex match) @
           (highlightOpen active (info_id info) @
            substring (processedHtml st) (startIndex match) (endIndex match) @ highlightClose) @
           substringFrom (processedHtml st) (endIndex match),
         matchedPassages =
           mapSet (referenced_student_text_quote passage)
             \<lparr>matched_passage = passage, matched_id = info_id info,
              matched_startIndex =
                stableStartIndex original (referenced_student_text_quote passage)\<rparr>
             (matchedPassages st)\<rparr>"
        using info match by (simp add: placePassage_def Let_def stableStartIndex_def)
      then show ?thesis using True by (intro wrapped [OF info match _ refl])
    qed
  qed
qed

lemma placePassage_insertsMarkup:
  assumes "insertsMarkup active s (processedHtml st)"
  shows "insertsMarkup active s (processedHtml (placePassage active original pm passage st))"
proof (cases rule: placePassage_cases [of active original pm passage st])
  case unchanged
  then show ?thesis using assms by simp
next
  case (wrapped info match stable)
  let ?a = "substring (processedHtml st) 0 (startIndex match)"
  let ?b = "substring (processedHtml st) (startIndex match) (endIndex match)"
  let ?c = "substringFrom (processedHtml st) (endIndex match)"
  have p: "processedHtml (placePassage active original pm passage st) =
             ?a @ (highlightOpen active (info_id info) @ ?b @ highlightClose) @ ?c"
    by (subst wrapped(3)) simp
  from findBestSubstringMatch_span [OF wrapped(2)]
  have "?a @ ?b @ ?c = processedHtml st" by (intro substring_cut) auto
  then have "insertsMarkup active s (?a @ ?b @ ?c)" using assms by simp
  then have "insertsMarkup active s (?a @ highlightOpen active (info_id info) @ ?b @ highlightClose @ ?c)"
    by (rule insertsMarkup.wrap)
  then show ?thesis by (simp add: p)
qed

lemma placeLoop_insertsMarkup:
  "insertsMarkup active s (processedHtml st) \<Longrightarrow>
   insertsMarkup active s (processedHtml (placeLoop active original pm passages st))"
  by (induction passages arbitrary: st) (auto intro: placePassage_insertsMarkup)

lemma markedHtml_insertsMarkup:
  "insertsMarkup active markdownProposal (markedHtml active markdownProposal fb)"
proof -
  have "insertsMarkup active markdownProposal
          (processedHtml \<lparr>processedHtml = markdownProposal, matchedPassages = []\<rparr>)"
    by (simp add: insertsMarkup.same)
  then have "insertsMarkup active markdownProposal
          (processedHtml (placed active markdownProposal passages))" for passages
    unfolding placed_def by (rule placeLoop_insertsMarkup)
  then show ?thesis
    by (auto simp: markedHtml_def insertsMarkup.same split: option.splits)
qed

lemma insertsMarkup_subseq: "insertsMarkup active s t \<Longrightarrow> subseq s t"
proof (induction rule: insertsMarkup.induct)
  case (same active s)
  then show ?case by simp
next
  case (wrap active s a b c ident)
  have 1: "subseq c (highlightClose @ c)" by (simp add: list_emb_append2)
  have 2: "subseq b b" and 3: "subseq a a" by simp_all
  have "subseq (b @ c) (b @ highlightClose @ c)"
    by (rule list_emb_append_mono [OF 2 1])
  then have "subseq (b @ c) (highlightOpen active ident @ b @ highlightClose @ c)"
    by (rule list_emb_append2)
  then have "subseq (a @ b @ c) (a @ highlightOpen active ident @ b @ highlightClose @ c)"
    by (rule list_emb_append_mono [OF 3])
  with wrap.IH show ?case by (rule subseq_order.trans)
qed

text \<open>
  Claim C9. Placement is insertion-only: for every document text and feedback list the
  marked text comes from the document by steps that each put highlight markup around a
  cut span and change nothing else, so the document text is a subsequence of the marked
  text.
\<close>

theorem placement_insertion_only:
  "insertsMarkup active markdownProposal (markedHtml active markdownProposal fb) \<and>
   subseq markdownProposal (markedHtml active markdownProposal fb)"
  using markedHtml_insertsMarkup [of active markdownProposal fb] insertsMarkup_subseq by blast

subsection \<open>Sorting with a comparator\<close>

lemma mset_insertBy: "mset (insertBy cmp x ys) = add_mset x (mset ys)"
  by (induction ys) auto

lemma mset_sortBy: "mset (sortBy cmp xs) = mset xs"
  by (induction xs) (auto simp: sortBy_def mset_insertBy)


lemma insertBy_insort_key:
  assumes "\<And>y. y \<in> set ys \<Longrightarrow> isPositive (cmp x y) \<longleftrightarrow> \<not> key x \<le> key y"
  shows "insertBy cmp x ys = insort_key key x ys"
  using assms by (induction ys) auto

lemma sortBy_sort_key:
  fixes key :: "'a \<Rightarrow> 'b::linorder"
  assumes "\<And>x y. x \<in> set xs \<Longrightarrow> y \<in> set xs \<Longrightarrow> isPositive (cmp x y) \<longleftrightarrow> \<not> key x \<le> key y"
  shows "sortBy cmp xs = sort_key key xs"
  using assms
proof (induction xs)
  case Nil
  then show ?case by (simp add: sortBy_def)
next
  case (Cons x xs)
  have ih: "sortBy cmp xs = sort_key key xs" using Cons by simp
  have "insertBy cmp x (sort_key key xs) = insort_key key x (sort_key key xs)"
    by (rule insertBy_insort_key) (simp add: Cons.prems)
  then show ?case using ih by (simp add: sortBy_def)
qed

subsection \<open>The order of the annotations\<close>

lemma startKey_compare:
  assumes "keyed a" and "keyed b"
  shows "isPositive (minus_js (anno_startIndex a) (anno_startIndex b)) \<longleftrightarrow>
         \<not> startKey a \<le> startKey b"
  using assms by (auto simp: keyed_def startKey_def)

lemma startKey_lessEq:
  assumes "keyed a" and "keyed b" and "startKey a \<le> startKey b"
  shows "lessEq_js (anno_startIndex a) (anno_startIndex b)"
  using assms by (auto simp: keyed_def startKey_def)

lemma startKey_unmatched: "keyed a \<Longrightarrow> isUnmatched a \<longleftrightarrow> startKey a = (1, 0)"
  by (auto simp: keyed_def startKey_def isUnmatched_def)

lemma sorted_unmatched_last:
  assumes "sorted (map startKey xs)" and "\<forall>a \<in> set xs. keyed a"
  shows "xs = filter (\<lambda>a. \<not> isUnmatched a) xs @ filter isUnmatched xs"
  using assms
proof (induction xs)
  case Nil
  then show ?case by simp
next
  case (Cons x xs)
  then have ih: "xs = filter (\<lambda>a. \<not> isUnmatched a) xs @ filter isUnmatched xs" by simp
  show ?case
  proof (cases "isUnmatched x")
    case True
    then have "startKey x = (1, 0)" using Cons.prems startKey_unmatched by simp
    then have "\<forall>a \<in> set xs. (1, 0) \<le> startKey a" using Cons.prems by auto
    moreover have "\<forall>a \<in> set xs. startKey a \<le> (1, 0)"
      using Cons.prems by (auto simp: keyed_def startKey_def)
    ultimately have "\<forall>a \<in> set xs. isUnmatched a"
      using Cons.prems startKey_unmatched by (metis antisym list.set_intros(2))
    then have "filter (\<lambda>a. \<not> isUnmatched a) xs = []" and "filter isUnmatched xs = xs"
      by (simp_all add: filter_empty_conv)
    then show ?thesis using True by simp
  next
    case False
    then show ?thesis using ih by simp
  qed
qed

lemma unmatchedFrom_passages: "map passageOf (unmatchedFrom ps k) = ps"
  by (induction ps arbitrary: k) (auto simp: passageOf_def)

lemma unmatchedFrom_unmatched: "a \<in> set (unmatchedFrom ps k) \<Longrightarrow> isUnmatched a"
  by (induction ps arbitrary: k) (auto simp: isUnmatched_def)

lemma unmatchedFrom_ids:
  "map anno_id (unmatchedFrom ps k) =
     map (\<lambda>j. js ''unmatched-'' @ toStringNat j) [k ..< k + length ps]"
proof (induction ps arbitrary: k)
  case Nil
  then show ?case by simp
next
  case (Cons p ps)
  have "k < k + length (p # ps)" by simp
  then have "[k ..< k + length (p # ps)] = k # [Suc k ..< k + length (p # ps)]"
    by (rule upt_conv_Cons)
  then have "[k ..< k + length (p # ps)] = k # [Suc k ..< Suc k + length ps]" by simp
  then show ?case using Cons [of "Suc k"] by (simp del: upt_Suc)
qed

lemma matched_not_unmatched: "a \<in> set (matchedAnnotationsData matched) \<Longrightarrow> \<not> isUnmatched a"
  by (auto simp: matchedAnnotationsData_def isUnmatched_def)

lemma annotations_keyed:
  "a \<in> set (matchedAnnotationsData matched @ unmatchedAnnotationsData passages matched) \<Longrightarrow> keyed a"
  using unmatchedFrom_unmatched
  by (auto simp: matchedAnnotationsData_def unmatchedAnnotationsData_def keyed_def isUnmatched_def)

lemma allAnnotations_sort_key:
  "allAnnotations passages matched =
     sort_key startKey (matchedAnnotationsData matched @ unmatchedAnnotationsData passages matched)"
  unfolding allAnnotations_def
  by (rule sortBy_sort_key) (rule startKey_compare; rule annotations_keyed)

lemma allAnnotations_keyed: "a \<in> set (allAnnotations passages matched) \<Longrightarrow> keyed a"
  using annotations_keyed [of a matched passages] by (simp add: allAnnotations_sort_key)

lemma allAnnotations_unmatched:
  "filter isUnmatched (allAnnotations passages matched) = unmatchedAnnotationsData passages matched"
proof -
  let ?M = "matchedAnnotationsData matched"
  let ?U = "unmatchedAnnotationsData passages matched"
  have "filter isUnmatched (sort_key startKey (?M @ ?U)) =
        filter (\<lambda>a. startKey a = (1, 0)) (sort_key startKey (?M @ ?U))"
    by (rule filter_cong) (use annotations_keyed startKey_unmatched in auto)
  also have "\<dots> = filter (\<lambda>a. startKey a = (1, 0)) (?M @ ?U)"
    by (rule sort_key_stable)
  also have "\<dots> = filter isUnmatched (?M @ ?U)"
    by (rule filter_cong) (use annotations_keyed startKey_unmatched in auto)
  also have "\<dots> = ?U"
    using matched_not_unmatched [of _ matched] unmatchedFrom_unmatched
    by (auto simp: unmatchedAnnotationsData_def filter_empty_conv)
  finally show ?thesis by (simp add: allAnnotations_sort_key)
qed

lemma allAnnotations_sorted:
  "sorted_wrt (\<lambda>a b. lessEq_js (anno_startIndex a) (anno_startIndex b))
     (allAnnotations passages matched)"
proof -
  have "sorted (map startKey (allAnnotations passages matched))"
    by (simp add: allAnnotations_sort_key)
  then have "sorted_wrt (\<lambda>a b. startKey a \<le> startKey b) (allAnnotations passages matched)"
    by (simp add: sorted_map)
  then show ?thesis
    by (rule sorted_wrt_mono_rel [rotated]) (use allAnnotations_keyed startKey_lessEq in blast)
qed

lemma allAnnotations_split:
  "allAnnotations passages matched =
     filter (\<lambda>a. \<not> isUnmatched a) (allAnnotations passages matched) @
     filter isUnmatched (allAnnotations passages matched)"
proof (rule sorted_unmatched_last)
  show "sorted (map startKey (allAnnotations passages matched))"
    by (simp add: allAnnotations_sort_key)
  show "\<forall>a \<in> set (allAnnotations passages matched). keyed a"
    using allAnnotations_keyed by blast
qed

lemma unmatched_passages:
  "map passageOf (unmatchedAnnotationsData passages matched) =
     filter (\<lambda>p. \<not> mapHas matched (referenced_student_text_quote p)) passages"
  by (simp add: unmatchedAnnotationsData_def unmatchedFrom_passages)

subsection \<open>Maps in insertion order\<close>

lemma map_of_mapSet: "map_of (mapSet k v m) = (map_of m)(k \<mapsto> v)"
  by (induction m) (auto simp: fun_eq_iff)

lemma keys_mapSet:
  "map fst (mapSet k v m) = (if k \<in> set (map fst m) then map fst m else map fst m @ [k])"
proof (induction m)
  case Nil
  then show ?case by simp
next
  case (Cons e m)
  obtain k' v' where e: "e = (k', v')" by (cases e)
  show ?case
  proof (cases "k' = k")
    case True
    then show ?thesis by (simp add: e)
  next
    case False
    then show ?thesis using Cons by (simp add: e)
  qed
qed

lemma set_mapSet: "set (mapSet k v m) \<subseteq> insert (k, v) (set m)"
  by (induction m) (auto split: if_splits)

lemma distinct_mapSet: "distinct (map fst m) \<Longrightarrow> distinct (map fst (mapSet k v m))"
  by (simp add: keys_mapSet)

lemma mapHas_keys: "mapHas m k \<longleftrightarrow> k \<in> set (map fst m)"
  by (simp add: mapHas_def map_of_eq_None_iff)

subsection \<open>Decimal digits\<close>

lemma toStringNat_nonempty: "toStringNat n \<noteq> []"
  by (subst toStringNat.simps) simp

lemma toStringNat_inject: "toStringNat n = toStringNat m \<Longrightarrow> n = m"
proof (induction n arbitrary: m rule: toStringNat.induct)
  case (1 n)
  show ?case
  proof (cases "n < 10")
    case True
    then have n: "toStringNat n = [48 + n]" by (subst toStringNat.simps) simp
    show ?thesis
    proof (cases "m < 10")
      case m: True
      then have "toStringNat m = [48 + m]" by (subst toStringNat.simps) simp
      then show ?thesis using n "1.prems" by simp
    next
      case False
      then have "toStringNat m = toStringNat (m div 10) @ [48 + m mod 10]"
        by (subst toStringNat.simps) simp
      then show ?thesis using n "1.prems" toStringNat_nonempty [of "m div 10"] by simp
    qed
  next
    case False
    then have n: "toStringNat n = toStringNat (n div 10) @ [48 + n mod 10]"
      by (subst toStringNat.simps) simp
    show ?thesis
    proof (cases "m < 10")
      case True
      then have "toStringNat m = [48 + m]" by (subst toStringNat.simps) simp
      then show ?thesis using n "1.prems" toStringNat_nonempty [of "n div 10"] by simp
    next
      case m: False
      then have "toStringNat m = toStringNat (m div 10) @ [48 + m mod 10]"
        by (subst toStringNat.simps) simp
      then have "toStringNat (n div 10) = toStringNat (m div 10)" and d: "n mod 10 = m mod 10"
        using n "1.prems" by simp_all
      then have "n div 10 = m div 10" using "1.IH" False by blast
      then show ?thesis using d by (metis div_mult_mod_eq)
    qed
  qed
qed

subsection \<open>The map of identifiers\<close>

lemma buildPassageMap_get:
  assumes "\<And>q info. map_of m q = Some info \<Longrightarrow>
             \<exists>i < length pre. info = \<lparr>info_passage = pre ! i,
               info_id = js ''annotation-'' @ toStringNat i\<rparr> \<and>
               referenced_student_text_quote (pre ! i) = q"
    and "map_of (buildPassageMap ps (length pre) m) q = Some info"
  shows "\<exists>i < length (pre @ ps). info = \<lparr>info_passage = (pre @ ps) ! i,
               info_id = js ''annotation-'' @ toStringNat i\<rparr> \<and>
               referenced_student_text_quote ((pre @ ps) ! i) = q"
  using assms
proof (induction ps arbitrary: pre m)
  case Nil
  then show ?case by simp
next
  case (Cons p ps)
  let ?m = "mapSet (referenced_student_text_quote p)
          \<lparr>info_passage = p, info_id = js ''annotation-'' @ toStringNat (length pre)\<rparr> m"
  have inv: "\<exists>i < length (pre @ [p]). info' = \<lparr>info_passage = (pre @ [p]) ! i,
               info_id = js ''annotation-'' @ toStringNat i\<rparr> \<and>
               referenced_student_text_quote ((pre @ [p]) ! i) = q'"
    if "map_of ?m q' = Some info'" for q' info'
  proof (cases "q' = referenced_student_text_quote p")
    case True
    then have "info' = \<lparr>info_passage = p, info_id = js ''annotation-'' @ toStringNat (length pre)\<rparr>"
      using that by (simp add: map_of_mapSet)
    then show ?thesis using True by (intro exI [of _ "length pre"]) simp
  next
    case False
    then have "map_of m q' = Some info'" using that by (simp add: map_of_mapSet)
    from Cons.prems(1) [OF this] obtain i where "i < length pre"
      "info' = \<lparr>info_passage = pre ! i, info_id = js ''annotation-'' @ toStringNat i\<rparr>"
      "referenced_student_text_quote (pre ! i) = q'" by blast
    then show ?thesis by (intro exI [of _ i]) (simp add: nth_append)
  qed
  have "map_of (buildPassageMap ps (length (pre @ [p])) ?m) q = Some info"
    using Cons.prems(2) by simp
  from Cons.IH [of ?m "pre @ [p]", OF inv this] show ?case by simp
qed

lemma passageMap_get:
  assumes "mapGet (buildPassageMap passages 0 []) q = Some info"
  shows "\<exists>i < length passages. info = \<lparr>info_passage = passages ! i,
               info_id = js ''annotation-'' @ toStringNat i\<rparr> \<and>
               referenced_student_text_quote (passages ! i) = q"
  using buildPassageMap_get [of "[]" "[]" passages q info] assms by (simp add: mapGet_def)

subsection \<open>What the loop records\<close>

lemma placePassage_entries:
  assumes "passage \<in> set passages"
    and "\<forall>e \<in> set (matchedPassages st). placedEntry passages e"
  shows "\<forall>e \<in> set (matchedPassages
            (placePassage active original (buildPassageMap passages 0 []) passage st)).
           placedEntry passages e"
proof (cases rule: placePassage_cases
    [of active original "buildPassageMap passages 0 []" passage st])
  case unchanged
  then show ?thesis using assms by simp
next
  case (wrapped info match stable)
  let ?q = "referenced_student_text_quote passage"
  let ?new = "\<lparr>matched_passage = passage, matched_id = info_id info, matched_startIndex = stable\<rparr>"
  from passageMap_get [OF wrapped(1)] obtain i where i: "i < length passages"
    "info_id info = js ''annotation-'' @ toStringNat i"
    "referenced_student_text_quote (passages ! i) = ?q" by auto
  then have new: "placedEntry passages (?q, ?new)"
    using assms(1) by (auto simp: placedEntry_def)
  have "matchedPassages (placePassage active original (buildPassageMap passages 0 []) passage st) =
        mapSet ?q ?new (matchedPassages st)"
    by (subst wrapped(3)) simp
  then show ?thesis using set_mapSet [of ?q ?new "matchedPassages st"] new assms(2) by auto
qed

lemma placePassage_distinct:
  assumes "distinct (map fst (matchedPassages st))"
  shows "distinct (map fst (matchedPassages (placePassage active original pm passage st)))"
proof (cases rule: placePassage_cases [of active original pm passage st])
  case unchanged
  then show ?thesis using assms by simp
next
  case (wrapped info match stable)
  show ?thesis by (subst wrapped(3)) (simp add: distinct_mapSet assms)
qed

lemma placeLoop_entries:
  assumes "set todo \<subseteq> set passages"
    and "\<forall>e \<in> set (matchedPassages st). placedEntry passages e"
  shows "\<forall>e \<in> set (matchedPassages
            (placeLoop active original (buildPassageMap passages 0 []) todo st)).
           placedEntry passages e"
  using assms
proof (induction todo arbitrary: st)
  case Nil
  then show ?case by simp
next
  case (Cons p todo)
  have "\<forall>e \<in> set (matchedPassages
            (placePassage active original (buildPassageMap passages 0 []) p st)).
           placedEntry passages e"
    by (rule placePassage_entries) (use Cons.prems in auto)
  then show ?case using Cons by simp
qed

lemma placeLoop_distinct:
  "distinct (map fst (matchedPassages st)) \<Longrightarrow>
   distinct (map fst (matchedPassages (placeLoop active original pm todo st)))"
  by (induction todo arbitrary: st) (auto intro: placePassage_distinct)

lemma placed_entries:
  "\<forall>e \<in> set (matchedPassages (placed active markdownProposal passages)). placedEntry passages e"
  unfolding placed_def
  by (rule placeLoop_entries) (simp_all add: sortedPassages_def set_sortBy)

lemma placed_distinct:
  "distinct (map fst (matchedPassages (placed active markdownProposal passages)))"
  unfolding placed_def by (rule placeLoop_distinct) simp

subsection \<open>One record for each passage\<close>

lemma distinct_of_map: "distinct (map f xs) \<Longrightarrow> distinct xs"
  by (simp add: distinct_map)

lemma passageOf_matched:
  "map passageOf (matchedAnnotationsData matched) = map (\<lambda>e. matched_passage (snd e)) matched"
  by (simp add: matchedAnnotationsData_def mapValues_def passageOf_def)

lemma matched_passages_mset:
  assumes quotes: "distinct (map referenced_student_text_quote passages)"
    and keys: "distinct (map fst matched)"
    and entries: "\<forall>e \<in> set matched. placedEntry passages e"
  shows "mset (map (\<lambda>e. matched_passage (snd e)) matched) =
         mset (filter (\<lambda>p. mapHas matched (referenced_student_text_quote p)) passages)"
proof -
  let ?L = "map (\<lambda>e. matched_passage (snd e)) matched"
  let ?R = "filter (\<lambda>p. mapHas matched (referenced_student_text_quote p)) passages"
  have "map referenced_student_text_quote ?L = map fst matched"
    using entries by (auto simp: placedEntry_def)
  then have "distinct (map referenced_student_text_quote ?L)" using keys by (simp only:)
  then have dl: "distinct ?L" by (rule distinct_of_map)
  have "distinct passages" using quotes by (rule distinct_of_map)
  then have dr: "distinct ?R" by simp
  have inj: "inj_on referenced_student_text_quote (set passages)"
    using quotes by (simp add: distinct_map)
  have "set ?L = set ?R"
  proof (intro equalityI subsetI)
    fix p assume "p \<in> set ?L"
    then obtain e where e: "e \<in> set matched" "p = matched_passage (snd e)" by auto
    then have "placedEntry passages e" using entries by blast
    then have "p \<in> set passages" "referenced_student_text_quote p = fst e"
      using e by (simp_all add: placedEntry_def)
    moreover have "fst e \<in> set (map fst matched)" using e by simp
    ultimately show "p \<in> set ?R" by (simp add: mapHas_keys)
  next
    fix p assume "p \<in> set ?R"
    then have p: "p \<in> set passages" and "referenced_student_text_quote p \<in> set (map fst matched)"
      by (simp_all add: mapHas_keys)
    then obtain e where e: "e \<in> set matched" "fst e = referenced_student_text_quote p" by auto
    then have "placedEntry passages e" using entries by blast
    then have "matched_passage (snd e) \<in> set passages"
      "referenced_student_text_quote (matched_passage (snd e)) = referenced_student_text_quote p"
      using e by (simp_all add: placedEntry_def)
    then have "matched_passage (snd e) = p" using inj p by (simp add: inj_on_def)
    then show "p \<in> set ?L" using e by force
  qed
  then show ?thesis using dl dr by (rule set_eq_iff_mset_eq_distinct [THEN iffD1, rotated 2])
qed



subsection \<open>The identifiers of the annotations\<close>

lemma set_allAnnotations:
  "set (allAnnotations passages matched) =
     set (matchedAnnotationsData matched) \<union> set (unmatchedAnnotationsData passages matched)"
  by (simp add: allAnnotations_def set_sortBy)

lemma matched_annotation_id:
  assumes quotes: "distinct (map referenced_student_text_quote passages)"
    and entries: "\<forall>e \<in> set matched. placedEntry passages e"
    and a: "a \<in> set (matchedAnnotationsData matched)"
  shows "\<exists>i < length passages. anno_id a = js ''annotation-'' @ toStringNat i \<and>
           passageOf a = passages ! i"
proof -
  from a obtain e where e: "e \<in> set matched"
    and id: "anno_id a = matched_id (snd e)"
    and p: "passageOf a = matched_passage (snd e)"
    by (auto simp: matchedAnnotationsData_def mapValues_def passageOf_def)
  from entries e have "placedEntry passages e" by blast
  then obtain i where i: "i < length passages"
    "matched_id (snd e) = js ''annotation-'' @ toStringNat i"
    "referenced_student_text_quote (passages ! i) = fst e"
    and mem: "matched_passage (snd e) \<in> set passages"
    and q: "referenced_student_text_quote (matched_passage (snd e)) = fst e"
    by (auto simp: placedEntry_def)
  have "inj_on referenced_student_text_quote (set passages)"
    using quotes by (simp add: distinct_map)
  moreover have "passages ! i \<in> set passages" using i(1) by simp
  ultimately have "matched_passage (snd e) = passages ! i"
    using mem q i(3) by (simp add: inj_on_def)
  then show ?thesis using i id p by auto
qed

lemma matched_ids_distinct:
  assumes keys: "distinct (map fst matched)"
    and entries: "\<forall>e \<in> set matched. placedEntry passages e"
  shows "distinct (map anno_id (matchedAnnotationsData matched))"
proof -
  have ids: "map anno_id (matchedAnnotationsData matched) = map (\<lambda>e. matched_id (snd e)) matched"
    by (simp add: matchedAnnotationsData_def mapValues_def)
  have "inj_on (\<lambda>e. matched_id (snd e)) (set matched)"
  proof (rule inj_onI)
    fix e e' assume e: "e \<in> set matched" and e': "e' \<in> set matched"
      and same: "matched_id (snd e) = matched_id (snd e')"
    from entries e obtain i where i: "matched_id (snd e) = js ''annotation-'' @ toStringNat i"
      "referenced_student_text_quote (passages ! i) = fst e" by (auto simp: placedEntry_def)
    from entries e' obtain j where j: "matched_id (snd e') = js ''annotation-'' @ toStringNat j"
      "referenced_student_text_quote (passages ! j) = fst e'" by (auto simp: placedEntry_def)
    from same i(1) j(1) have "i = j" by (simp add: toStringNat_inject)
    then have "fst e = fst e'" using i(2) j(2) by simp
    then show "e = e'" using keys e e' by (metis eq_key_imp_eq_value prod.collapse)
  qed
  moreover have "distinct matched" using keys by (rule distinct_of_map)
  ultimately show ?thesis unfolding ids by (simp add: distinct_map)
qed

lemma unmatched_ids:
  "map anno_id (unmatchedAnnotationsData passages matched) =
     map (\<lambda>k. js ''unmatched-'' @ toStringNat k)
       [0 ..< length (unmatchedAnnotationsData passages matched)]"
proof -
  let ?us = "filter (\<lambda>p. \<not> mapHas matched (referenced_student_text_quote p)) passages"
  have "length (unmatchedFrom ?us 0) = length ?us"
    using unmatchedFrom_passages [of ?us 0] by (metis length_map)
  then show ?thesis
    using unmatchedFrom_ids [of ?us 0] by (simp add: unmatchedAnnotationsData_def)
qed

lemma unmatched_ids_distinct:
  "distinct (map anno_id (unmatchedAnnotationsData passages matched))"
proof -
  have "inj (\<lambda>k. js ''unmatched-'' @ toStringNat k)"
    by (rule injI) (simp add: toStringNat_inject)
  then have "distinct (map (\<lambda>k. js ''unmatched-'' @ toStringNat k)
       [0 ..< length (unmatchedAnnotationsData passages matched)])"
    by (simp add: distinct_map inj_on_def)
  then show ?thesis by (simp only: unmatched_ids [symmetric])
qed

lemma all_ids_distinct:
  assumes keys: "distinct (map fst matched)"
    and entries: "\<forall>e \<in> set matched. placedEntry passages e"
  shows "distinct (map anno_id (allAnnotations passages matched))"
proof -
  let ?M = "matchedAnnotationsData matched"
  let ?U = "unmatchedAnnotationsData passages matched"
  have m: "hd x = 97" if "x \<in> set (map anno_id ?M)" for x
  proof -
    from that obtain e where "e \<in> set matched" "x = matched_id (snd e)"
      by (auto simp: matchedAnnotationsData_def mapValues_def)
    then show ?thesis using entries by (auto simp: placedEntry_def js_def)
  qed
  have u: "hd x = 117" if "x \<in> set (map anno_id ?U)" for x
    using that unfolding unmatched_ids by (auto simp: js_def)
  have "set (map anno_id ?M) \<inter> set (map anno_id ?U) = {}"
    using m u by fastforce
  then have "distinct (map anno_id (?M @ ?U))"
    using matched_ids_distinct [OF assms] unmatched_ids_distinct [of passages matched] by simp
  moreover have "mset (map anno_id (allAnnotations passages matched)) = mset (map anno_id (?M @ ?U))"
    by (simp add: allAnnotations_def mset_sortBy)
  ultimately show ?thesis by (metis mset_eq_imp_distinct_iff)
qed

subsection \<open>The page on a document with one matched and one unmatched passage\<close>

lemma essays_lengths: "length quoteEssays = 27" "length quoteShort = 3" "length documentEssays = 50"
  by (simp_all add: quoteEssays_def quoteShort_def documentEssays_def js_def)

lemma essays_differ: "quoteShort \<noteq> quoteEssays" "quoteEssays \<noteq> quoteShort"
  using essays_lengths by auto

lemma digits: "toStringNat 0 = js ''0''" "toStringNat (Suc 0) = js ''1''"
  by (subst toStringNat.simps, simp add: js_def)+

lemma essays_passageMap:
  "buildPassageMap [passageEssays, passageFox] 0 [] =
     [(quoteEssays, \<lparr>info_passage = passageEssays, info_id = js ''annotation-0''\<rparr>),
      (quoteShort, \<lparr>info_passage = passageFox, info_id = js ''annotation-1''\<rparr>)]"
  by (simp add: passageEssays_def passageFox_def essays_differ digits js_def)

lemma essays_sorted: "sortedPassages [passageEssays, passageFox] = [passageEssays, passageFox]"
  by (simp add: sortedPassages_def sortBy_def passageEssays_def passageFox_def essays_lengths)

lemma essays_whole: "substring documentEssays 0 50 = documentEssays"
  "substring documentEssays 0 0 = []" "substringFrom documentEssays 50 = []"
  by (simp_all add: substring_def substringFrom_def essays_lengths)

lemma essays_first:
  "placePassage None documentEssays
     [(quoteEssays, \<lparr>info_passage = passageEssays, info_id = js ''annotation-0''\<rparr>),
      (quoteShort, \<lparr>info_passage = passageFox, info_id = js ''annotation-1''\<rparr>)]
     passageEssays \<lparr>processedHtml = documentEssays, matchedPassages = []\<rparr> =
   \<lparr>processedHtml = highlightOpen None (js ''annotation-0'') @ documentEssays @ highlightClose,
    matchedPassages =
      [(quoteEssays, \<lparr>matched_passage = passageEssays, matched_id = js ''annotation-0'',
          matched_startIndex = 0\<rparr>)]\<rparr>"
proof -
  have q: "referenced_student_text_quote passageEssays = quoteEssays"
    by (simp add: passageEssays_def)
  show ?thesis
    unfolding placePassage_def Let_def q
    by (simp add: mapGet_def essays_match essays_whole)
qed

lemma essays_second:
  "placePassage None documentEssays
     [(quoteEssays, \<lparr>info_passage = passageEssays, info_id = js ''annotation-0''\<rparr>),
      (quoteShort, \<lparr>info_passage = passageFox, info_id = js ''annotation-1''\<rparr>)]
     passageFox st = st"
proof -
  have q: "referenced_student_text_quote passageFox = quoteShort"
    by (simp add: passageFox_def)
  have "findBestSubstringMatch quoteShort (processedHtml st) = None"
    by (simp add: findBestSubstringMatch_def findBestSubstringMatchWith_def essays_lengths)
  then show ?thesis
    unfolding placePassage_def Let_def q by (simp add: mapGet_def essays_differ)
qed

lemma essays_placed:
  "placed None documentEssays [passageEssays, passageFox] =
   \<lparr>processedHtml = highlightOpen None (js ''annotation-0'') @ documentEssays @ highlightClose,
    matchedPassages =
      [(quoteEssays, \<lparr>matched_passage = passageEssays, matched_id = js ''annotation-0'',
          matched_startIndex = 0\<rparr>)]\<rparr>"
  unfolding placed_def essays_passageMap essays_sorted
  by (simp only: placeLoop.simps essays_first essays_second)

lemma essays_annotations:
  "annotationData None documentEssays (Some [passageEssays, passageFox]) =
     [\<lparr>anno_id = js ''annotation-0'', anno_feedback = feedback passageEssays,
       anno_guideline = quote_from_marking_guidelines passageEssays,
       anno_quote = quoteEssays, anno_startIndex = Num 0\<rparr>,
      \<lparr>anno_id = js ''unmatched-0'', anno_feedback = feedback passageFox,
       anno_guideline = quote_from_marking_guidelines passageFox,
       anno_quote = quoteShort, anno_startIndex = PosInfinity\<rparr>]"
proof -
  have d: "documentEssays \<noteq> []" using essays_lengths by auto
  have q: "referenced_student_text_quote passageEssays = quoteEssays"
    "referenced_student_text_quote passageFox = quoteShort"
    by (simp_all add: passageEssays_def passageFox_def)
  show ?thesis
    by (simp add: annotationData_def d essays_placed allAnnotations_def matchedAnnotationsData_def
        mapValues_def unmatchedAnnotationsData_def mapHas_def q essays_differ sortBy_def digits
        js_def)
qed

subsection \<open>Matched means placed\<close>

lemma placePassage_placedIn:
  assumes "insertsMarkup active original (processedHtml st)"
    and "\<forall>e \<in> set (matchedPassages st). placedIn active original e"
  shows "\<forall>e \<in> set (matchedPassages (placePassage active original pm passage st)).
           placedIn active original e"
proof (cases rule: placePassage_cases [of active original pm passage st])
  case unchanged
  then show ?thesis using assms by simp
next
  case (wrapped info match stable)
  let ?q = "referenced_student_text_quote passage"
  let ?new = "\<lparr>matched_passage = passage, matched_id = info_id info, matched_startIndex = stable\<rparr>"
  have new: "placedIn active original (?q, ?new)"
    unfolding placedIn_def using assms(1) wrapped(2) wrapped(4) wrapped(5) by auto
  have "matchedPassages (placePassage active original pm passage st) =
        mapSet ?q ?new (matchedPassages st)"
    by (subst wrapped(3)) simp
  then show ?thesis using set_mapSet [of ?q ?new "matchedPassages st"] new assms(2) by auto
qed

lemma placeLoop_placedIn:
  assumes "insertsMarkup active original (processedHtml st)"
    and "\<forall>e \<in> set (matchedPassages st). placedIn active original e"
  shows "\<forall>e \<in> set (matchedPassages (placeLoop active original pm todo st)).
           placedIn active original e"
  using assms
proof (induction todo arbitrary: st)
  case Nil
  then show ?case by simp
next
  case (Cons p todo)
  have "insertsMarkup active original (processedHtml (placePassage active original pm p st))"
    by (rule placePassage_insertsMarkup [OF Cons.prems(1)])
  moreover have "\<forall>e \<in> set (matchedPassages (placePassage active original pm p st)).
           placedIn active original e"
    by (rule placePassage_placedIn [OF Cons.prems])
  ultimately show ?case using Cons.IH by simp
qed

lemma placed_placedIn:
  "\<forall>e \<in> set (matchedPassages (placed active markdownProposal passages)).
     placedIn active markdownProposal e"
  unfolding placed_def
  by (rule placeLoop_placedIn) (simp_all add: insertsMarkup.same)

subsection \<open>The matched and the unmatched part of the list\<close>

lemma allAnnotations_matched_mset:
  "mset (filter (\<lambda>a. \<not> isUnmatched a) (allAnnotations passages matched)) =
     mset (matchedAnnotationsData matched)"
proof -
  let ?M = "matchedAnnotationsData matched"
  let ?U = "unmatchedAnnotationsData passages matched"
  have m: "filter (\<lambda>a. \<not> isUnmatched a) ?M = ?M"
    using matched_not_unmatched [of _ matched] by (simp add: filter_id_conv)
  have u: "filter (\<lambda>a. \<not> isUnmatched a) ?U = []"
    using unmatchedFrom_unmatched by (auto simp: unmatchedAnnotationsData_def filter_empty_conv)
  have "mset (filter (\<lambda>a. \<not> isUnmatched a) (allAnnotations passages matched)) =
        filter_mset (\<lambda>a. \<not> isUnmatched a) (mset (allAnnotations passages matched))"
    by simp
  also have "\<dots> = filter_mset (\<lambda>a. \<not> isUnmatched a) (mset (?M @ ?U))"
    by (simp add: allAnnotations_def mset_sortBy)
  also have "\<dots> = mset (filter (\<lambda>a. \<not> isUnmatched a) ?M @ filter (\<lambda>a. \<not> isUnmatched a) ?U)"
    by simp
  also have "\<dots> = mset ?M" by (simp only: m u append_Nil2)
  finally show ?thesis .
qed

lemma matched_quotes:
  assumes "\<forall>e \<in> set matched. placedEntry passages e"
  shows "map anno_quote (matchedAnnotationsData matched) = map fst matched"
  using assms by (auto simp: matchedAnnotationsData_def mapValues_def placedEntry_def)

lemma allAnnotations_matched_quotes:
  assumes "\<forall>e \<in> set matched. placedEntry passages e"
  shows "mset (map anno_quote (filter (\<lambda>a. \<not> isUnmatched a) (allAnnotations passages matched))) =
         mset (map fst matched)"
proof -
  have "mset (map anno_quote (filter (\<lambda>a. \<not> isUnmatched a) (allAnnotations passages matched))) =
        mset (map anno_quote (matchedAnnotationsData matched))"
    using allAnnotations_matched_mset [of passages matched] by (metis mset_map)
  then show ?thesis by (simp only: matched_quotes [OF assms])
qed

lemma allAnnotations_matched_keys:
  assumes entries: "\<forall>e \<in> set matched. placedEntry passages e"
    and placed: "\<forall>e \<in> set matched. placedIn active original e"
  shows "map anno_startIndex (filter (\<lambda>a. \<not> isUnmatched a) (allAnnotations passages matched)) =
         map (\<lambda>a. Num (stableStartIndex original (anno_quote a)))
           (filter (\<lambda>a. \<not> isUnmatched a) (allAnnotations passages matched))"
proof (rule map_cong [OF refl])
  fix a assume "a \<in> set (filter (\<lambda>a. \<not> isUnmatched a) (allAnnotations passages matched))"
  then have "a \<in> set (matchedAnnotationsData matched)"
    using unmatchedFrom_unmatched
    by (auto simp: set_allAnnotations unmatchedAnnotationsData_def)
  then obtain e where e: "e \<in> set matched"
    and k: "anno_startIndex a = Num (matched_startIndex (snd e))"
    and q: "anno_quote a = referenced_student_text_quote (matched_passage (snd e))"
    by (auto simp: matchedAnnotationsData_def mapValues_def)
  from entries e have "referenced_student_text_quote (matched_passage (snd e)) = fst e"
    by (simp add: placedEntry_def)
  moreover from placed e have "matched_startIndex (snd e) = stableStartIndex original (fst e)"
    by (simp add: placedIn_def)
  ultimately show "anno_startIndex a = Num (stableStartIndex original (anno_quote a))"
    using k q by simp
qed

lemma placed_nothing: "matchedPassages (placed active markdownProposal []) = []"
  by (simp add: placed_def sortedPassages_def sortBy_def)

lemma essays_matched:
  "matchedPassages (placed None documentEssays [passageEssays, passageFox]) =
     [(quoteEssays, \<lparr>matched_passage = passageEssays, matched_id = js ''annotation-0'',
          matched_startIndex = 0\<rparr>)]"
  by (simp add: essays_placed)

lemma essays_not_placed:
  "filter (\<lambda>p. \<not> mapHas
       [(quoteEssays, \<lparr>matched_passage = passageEssays, matched_id = js ''annotation-0'',
          matched_startIndex = 0\<rparr>)]
       (referenced_student_text_quote p)) [passageEssays, passageFox] = [passageFox]"
  by (simp add: mapHas_def passageEssays_def passageFox_def essays_differ)

text \<open>
  Claim C1. The annotation list that the page computes is sorted ascending by the
  start index. The annotations whose key is \<open>Infinity\<close> come last; for a non-empty
  document they are the records of exactly the feedback items whose quote has no entry
  in \<open>matchedPassages\<close>, in the order of the feedback list. The annotations before
  them are the records of exactly the quotes that have an entry; each of these quotes
  was matched with similarity at least 0.7 in the text being marked, and the key of its
  annotation is the start of the match of the quote in the original, unmarked document
  (\<open>-1\<close> when there is none).
\<close>

theorem annotations_ordered:
  "sorted_wrt (\<lambda>a b. lessEq_js (anno_startIndex a) (anno_startIndex b))
     (annotationData active markdownProposal fb) \<and>
   annotationData active markdownProposal fb =
     filter (\<lambda>a. \<not> isUnmatched a) (annotationData active markdownProposal fb) @
     filter isUnmatched (annotationData active markdownProposal fb) \<and>
   subseq (map passageOf (filter isUnmatched (annotationData active markdownProposal fb)))
     (passagesOf fb) \<and>
   (markdownProposal \<noteq> [] \<longrightarrow>
      map passageOf (filter isUnmatched (annotationData active markdownProposal fb)) =
        filter (\<lambda>p. \<not> mapHas (matchedPassages (placed active markdownProposal (passagesOf fb)))
                       (referenced_student_text_quote p)) (passagesOf fb) \<and>
      mset (map anno_quote (filter (\<lambda>a. \<not> isUnmatched a)
              (annotationData active markdownProposal fb))) =
        mset (map fst (matchedPassages (placed active markdownProposal (passagesOf fb)))) \<and>
      map anno_startIndex (filter (\<lambda>a. \<not> isUnmatched a)
          (annotationData active markdownProposal fb)) =
        map (\<lambda>a. Num (stableStartIndex markdownProposal (anno_quote a)))
          (filter (\<lambda>a. \<not> isUnmatched a) (annotationData active markdownProposal fb)) \<and>
      (\<forall>e \<in> set (matchedPassages (placed active markdownProposal (passagesOf fb))).
         placedIn active markdownProposal e))"
proof (cases "markdownProposal = [] \<or> passagesOf fb = []")
  case True
  then have out: "annotationData active markdownProposal fb = []"
    by (auto simp: annotationData_def passagesOf_def split: option.splits)
  show ?thesis
  proof (cases "markdownProposal = []")
    case empty: True
    show ?thesis unfolding out by (simp add: empty)
  next
    case False
    then have "passagesOf fb = []" using True by simp
    then show ?thesis unfolding out by (simp add: placed_nothing)
  qed
next
  case False
  then obtain passages where fb: "fb = Some passages" and ps: "passagesOf fb = passages"
    by (cases fb) (simp_all add: passagesOf_def)
  let ?matched = "matchedPassages (placed active markdownProposal passages)"
  have out: "annotationData active markdownProposal fb = allAnnotations passages ?matched"
    using False fb ps by (simp add: annotationData_def)
  have u: "map passageOf (filter isUnmatched (allAnnotations passages ?matched)) =
        filter (\<lambda>p. \<not> mapHas ?matched (referenced_student_text_quote p)) passages"
    by (simp add: allAnnotations_unmatched unmatched_passages)
  then have s: "subseq (map passageOf (filter isUnmatched (allAnnotations passages ?matched))) passages"
    by simp
  have q: "mset (map anno_quote (filter (\<lambda>a. \<not> isUnmatched a) (allAnnotations passages ?matched))) =
        mset (map fst ?matched)"
    by (rule allAnnotations_matched_quotes [OF placed_entries])
  have k: "map anno_startIndex (filter (\<lambda>a. \<not> isUnmatched a) (allAnnotations passages ?matched)) =
        map (\<lambda>a. Num (stableStartIndex markdownProposal (anno_quote a)))
          (filter (\<lambda>a. \<not> isUnmatched a) (allAnnotations passages ?matched))"
    by (rule allAnnotations_matched_keys [OF placed_entries placed_placedIn])
  show ?thesis
    unfolding out ps
    using allAnnotations_sorted [of passages ?matched] allAnnotations_split [of passages ?matched]
      s u q k placed_placedIn [of active markdownProposal passages]
    by (intro conjI impI) assumption+
qed

theorem annotations_ordered_witness:
  "documentEssays \<noteq> [] \<and>
   map passageOf (filter isUnmatched
      (annotationData None documentEssays (Some [passageEssays, passageFox]))) = [passageFox] \<and>
   mset (map anno_quote (filter (\<lambda>a. \<not> isUnmatched a)
      (annotationData None documentEssays (Some [passageEssays, passageFox])))) =
     mset [quoteEssays]"
proof -
  have d: "documentEssays \<noteq> []" using essays_lengths by auto
  have p: "passagesOf (Some [passageEssays, passageFox]) = [passageEssays, passageFox]"
    by (simp add: passagesOf_def)
  from annotations_ordered [of None documentEssays "Some [passageEssays, passageFox]"] d
  show ?thesis unfolding p essays_matched essays_not_placed by simp
qed

subsection \<open>Every matched passage has its annotation\<close>

lemma matched_passage_annotation:
  assumes quotes: "distinct (map referenced_student_text_quote passages)"
    and keys: "distinct (map fst matched)"
    and entries: "\<forall>e \<in> set matched. placedEntry passages e"
    and i: "i < length passages"
    and has: "mapHas matched (referenced_student_text_quote (passages ! i))"
  shows "\<exists>a \<in> set (matchedAnnotationsData matched).
           anno_id a = js ''annotation-'' @ toStringNat i \<and> passageOf a = passages ! i"
proof -
  have "passages ! i \<in> set (filter (\<lambda>p. mapHas matched (referenced_student_text_quote p)) passages)"
    using i has by simp
  then have "passages ! i \<in> set (map (\<lambda>e. matched_passage (snd e)) matched)"
    using matched_passages_mset [OF quotes keys entries] by (metis mset_eq_setD)
  then have "passages ! i \<in> set (map passageOf (matchedAnnotationsData matched))"
    by (simp only: passageOf_matched)
  then obtain a where a: "a \<in> set (matchedAnnotationsData matched)" "passageOf a = passages ! i"
    by auto
  from matched_annotation_id [OF quotes entries a(1)] obtain j where j: "j < length passages"
    "anno_id a = js ''annotation-'' @ toStringNat j" "passageOf a = passages ! j" by blast
  have "distinct passages" using quotes by (rule distinct_of_map)
  then have "j = i" using a(2) j(1) j(3) i by (simp add: nth_eq_iff_index_eq)
  then show ?thesis using a j by blast
qed

text \<open>
  Claim C2, amended. For every non-empty document and every feedback list whose
  quotes are pairwise distinct: an annotation with a finite key carries the identifier
  \<open>annotation-i\<close> of the index \<open>i\<close> of its feedback item in the feedback list,
  whatever the order of processing, and every feedback item whose quote has an entry
  in \<open>matchedPassages\<close> has such an annotation; the feedback items without an entry
  have the annotations with key \<open>Infinity\<close>, which carry \<open>unmatched-0\<close>,
  \<open>unmatched-1\<close>, and so on, in the order of the feedback list, so that the number
  counts the unmatched items before it; and no two annotations of the list carry the
  same identifier.
\<close>

theorem annotation_ids:
  assumes "markdownProposal \<noteq> []"
    and "distinct (map referenced_student_text_quote passages)"
  shows "(\<forall>a \<in> set (annotationData active markdownProposal (Some passages)).
            \<not> isUnmatched a \<longrightarrow>
            (\<exists>i < length passages. anno_id a = js ''annotation-'' @ toStringNat i \<and>
               passageOf a = passages ! i)) \<and>
         (\<forall>i < length passages.
            mapHas (matchedPassages (placed active markdownProposal passages))
              (referenced_student_text_quote (passages ! i)) \<longrightarrow>
            (\<exists>a \<in> set (annotationData active markdownProposal (Some passages)).
               anno_id a = js ''annotation-'' @ toStringNat i \<and> passageOf a = passages ! i)) \<and>
         map passageOf (filter isUnmatched (annotationData active markdownProposal (Some passages))) =
           filter (\<lambda>p. \<not> mapHas (matchedPassages (placed active markdownProposal passages))
                          (referenced_student_text_quote p)) passages \<and>
         map anno_id (filter isUnmatched (annotationData active markdownProposal (Some passages))) =
           map (\<lambda>k. js ''unmatched-'' @ toStringNat k)
             [0 ..< length (filter (\<lambda>p. \<not> mapHas (matchedPassages
                  (placed active markdownProposal passages))
                  (referenced_student_text_quote p)) passages)] \<and>
         distinct (map anno_id (annotationData active markdownProposal (Some passages)))"
proof (cases "passages = []")
  case True
  then have "annotationData active markdownProposal (Some passages) = []"
    by (simp add: annotationData_def)
  then show ?thesis using True by simp
next
  case False
  let ?matched = "matchedPassages (placed active markdownProposal passages)"
  let ?rest = "filter (\<lambda>p. \<not> mapHas ?matched (referenced_student_text_quote p)) passages"
  have out: "annotationData active markdownProposal (Some passages) = allAnnotations passages ?matched"
    using False assms(1) by (simp add: annotationData_def)
  have a: "\<exists>i < length passages. anno_id a = js ''annotation-'' @ toStringNat i \<and>
               passageOf a = passages ! i"
    if "a \<in> set (allAnnotations passages ?matched)" and "\<not> isUnmatched a" for a
  proof -
    from that have "a \<in> set (matchedAnnotationsData ?matched)"
      using unmatchedFrom_unmatched
      by (auto simp: set_allAnnotations unmatchedAnnotationsData_def)
    then show ?thesis by (rule matched_annotation_id [OF assms(2) placed_entries])
  qed
  have a': "\<exists>a \<in> set (allAnnotations passages ?matched).
               anno_id a = js ''annotation-'' @ toStringNat i \<and> passageOf a = passages ! i"
    if "i < length passages" and "mapHas ?matched (referenced_student_text_quote (passages ! i))" for i
    using matched_passage_annotation [OF assms(2) placed_distinct placed_entries that]
    by (auto simp: set_allAnnotations)
  have u: "map passageOf (filter isUnmatched (allAnnotations passages ?matched)) = ?rest"
    by (simp add: allAnnotations_unmatched unmatched_passages)
  then have "length (filter isUnmatched (allAnnotations passages ?matched)) = length ?rest"
    by (metis length_map)
  then have n: "length (unmatchedAnnotationsData passages ?matched) = length ?rest"
    by (simp only: allAnnotations_unmatched)
  have b: "map anno_id (filter isUnmatched (allAnnotations passages ?matched)) =
           map (\<lambda>k. js ''unmatched-'' @ toStringNat k) [0 ..< length ?rest]"
    unfolding allAnnotations_unmatched using unmatched_ids [of passages ?matched]
    by (simp only: n)
  have d: "distinct (map anno_id (allAnnotations passages ?matched))"
    by (rule all_ids_distinct [OF placed_distinct placed_entries])
  show ?thesis unfolding out using a a' u b d by blast
qed

lemma essays_distinct:
  "distinct (map referenced_student_text_quote [passageEssays, passageFox])"
  by (simp add: passageEssays_def passageFox_def essays_differ)

lemma essays_nonempty: "documentEssays \<noteq> []"
  using essays_lengths by auto

lemma essays_passages:
  "map passageOf (annotationData None documentEssays (Some [passageEssays, passageFox])) =
     [passageEssays, passageFox]"
  unfolding essays_annotations
  by (simp add: passageOf_def passageEssays_def passageFox_def)

theorem annotation_ids_witness:
  "documentEssays \<noteq> [] \<and>
   distinct (map referenced_student_text_quote [passageEssays, passageFox]) \<and>
   distinct (map anno_id (annotationData None documentEssays (Some [passageEssays, passageFox]))) \<and>
   map anno_id (filter isUnmatched
      (annotationData None documentEssays (Some [passageEssays, passageFox]))) =
     [js ''unmatched-'' @ toStringNat 0]"
proof -
  from annotation_ids [OF essays_nonempty essays_distinct, of None]
    essays_nonempty essays_distinct
  show ?thesis unfolding essays_matched essays_not_placed by simp
qed

theorem annotation_ids_counterexample:
  "map anno_id (annotationData None documentEssays (Some [passageEssays, passageFox])) =
     [js ''annotation-0'', js ''unmatched-0''] \<and>
   map passageOf (annotationData None documentEssays (Some [passageEssays, passageFox])) =
     [passageEssays, passageFox] \<and>
   [passageEssays, passageFox] ! 1 = passageFox \<and>
   js ''unmatched-0'' \<noteq> js ''annotation-'' @ toStringNat 1"
proof (intro conjI)
  show "map anno_id (annotationData None documentEssays (Some [passageEssays, passageFox])) =
     [js ''annotation-0'', js ''unmatched-0'']"
    unfolding essays_annotations by simp
  show "map passageOf (annotationData None documentEssays (Some [passageEssays, passageFox])) =
     [passageEssays, passageFox]"
    by (rule essays_passages)
  show "[passageEssays, passageFox] ! 1 = passageFox" by simp
  show "js ''unmatched-0'' \<noteq> js ''annotation-'' @ toStringNat 1" by (simp add: js_def)
qed


subsection \<open>The page on two passages with the same quote, and on an empty document\<close>








section \<open>The normalizer with the lower-casing of the runtime\<close>







lemma afterLowerCase_Nil: "afterLowerCase [] = []"
  by (simp add: afterLowerCase_def trim_def replaceEllipsis_def replaceDashes_def
      replaceDoubleQuotes_def replaceSingleQuotes_def)








end
